theory Spec2Isabelle
  imports Main "HOL-Library.Sublist" "HOL-Library.Word"
begin

section \<open>The file systems the copier works on\<close>

text \<open>
  The package \<open>filesystem\<close> reads a source tree and writes a destination tree.
  Paths are lists of components, so \<open>filepath.Join(dir, name)\<close> is \<open>dir @ [name]\<close>.

  The source is read only. A source node carries, next to its content, what the
  operating system answers when the code touches it:
  \<^item> \<open>SFile oe bs re\<close> is a directory entry whose \<open>IsDir()\<close> is false. \<open>os.Open\<close>
    fails with \<open>oe\<close> when that is set; reading yields the bytes \<open>bs\<close> and then
    end of file, or the error \<open>re\<close> when that is set.
  \<^item> \<open>SDir le es\<close> is a directory. \<open>os.ReadDir\<close> fails with \<open>le\<close> when that is set
    and lists the entries \<open>es\<close> (in the order \<open>os.ReadDir\<close> returns them) otherwise.

  The destination is a partial map from paths to nodes. The source is given by the
  tree that its reads answer, so the model describes the calls whose source and
  destination are \<open>separate\<close> parts of the disk, neither path being the other or inside
  it: there no operation on the destination changes what the source answers. What a
  call does whose destination is its source, or lies inside it, is not described;
  the statements about what a copy leaves on the disk carry \<open>separate\<close> as a
  hypothesis.
\<close>

type_synonym byte = "8 word"
type_synonym path = "string list"

datatype errno = ENOENT | EACCES | ENOTDIR | EISDIR | EIO

datatype error = PathError string path errno

datatype snode =
    SFile "errno option" "byte list" "errno option"
  | SDir "errno option" "(string \<times> snode) list"

datatype dnode = DFile "byte list" | DDir

type_synonym fs = "path \<Rightarrow> dnode option"


fun IsDir :: "snode \<Rightarrow> bool" where
  "IsDir (SDir le es) = True"
| "IsDir (SFile oe bs re) = False"

fun ReadDir :: "path \<Rightarrow> snode \<Rightarrow> (string \<times> snode) list \<times> error option" where
  "ReadDir p (SDir None es) = (es, None)"
| "ReadDir p (SDir (Some e) es) = ([], Some (PathError ''open'' p e))"
| "ReadDir p (SFile oe bs re) = ([], Some (PathError ''readdirent'' p ENOTDIR))"

fun Open :: "path \<Rightarrow> snode \<Rightarrow> error option" where
  "Open p (SFile (Some e) bs re) = Some (PathError ''open'' p e)"
| "Open p (SFile None bs re) = None"
| "Open p (SDir le es) = None"

fun Read :: "path \<Rightarrow> snode \<Rightarrow> byte list \<times> error option" where
  "Read p (SFile oe bs None) = (bs, None)"
| "Read p (SFile oe bs (Some e)) = (bs, Some (PathError ''read'' p e))"
| "Read p (SDir le es) = ([], Some (PathError ''read'' p EISDIR))"

fun is_file :: "dnode option \<Rightarrow> bool" where
  "is_file (Some (DFile bs)) = True"
| "is_file (Some DDir) = False"
| "is_file None = False"

text \<open>
  \<open>os.Stat\<close> fails with \<open>ENOTDIR\<close> below a file and with \<open>ENOENT\<close> where nothing is;
  \<open>os.IsNotExist\<close> recognises the second only.
\<close>

definition Stat :: "fs \<Rightarrow> path \<Rightarrow> error option" where
  "Stat d p =
     (if \<exists>q \<in> set (prefixes p). q \<noteq> p \<and> is_file (d q) then Some (PathError ''stat'' p ENOTDIR)
      else if d p = None then Some (PathError ''stat'' p ENOENT)
      else None)"

fun IsNotExist :: "error option \<Rightarrow> bool" where
  "IsNotExist (Some (PathError op p e)) = (e = ENOENT)"
| "IsNotExist None = False"

text \<open>
  \<open>os.MkdirAll\<close> creates the directory and every missing parent, and fails when
  a file is in the way. \<open>os.Create\<close> opens with \<open>O_CREATE|O_TRUNC\<close>: it needs the
  parent directory, refuses a directory, and leaves an empty file. A write through
  the handle that \<open>os.Create\<close> returned goes to the offset of the handle, which starts
  at 0 and moves on by what is written; it overwrites what is there and fills a gap
  before the offset with zeros.
\<close>

definition MkdirAll :: "fs \<Rightarrow> path \<Rightarrow> fs \<times> error option" where
  "MkdirAll d p =
     (if \<exists>q \<in> set (prefixes p). is_file (d q) then (d, Some (PathError ''mkdir'' p ENOTDIR))
      else ((\<lambda>q. if prefix q p \<and> d q = None then Some DDir else d q), None))"

definition Create :: "fs \<Rightarrow> path \<Rightarrow> fs \<times> error option" where
  "Create d p =
     (case d (butlast p) of
        None \<Rightarrow> (d, Some (PathError ''open'' p ENOENT))
      | Some (DFile old) \<Rightarrow> (d, Some (PathError ''open'' p ENOTDIR))
      | Some DDir \<Rightarrow>
          (case d p of
             Some DDir \<Rightarrow> (d, Some (PathError ''open'' p EISDIR))
           | Some (DFile old) \<Rightarrow> (d(p \<mapsto> DFile []), None)
           | None \<Rightarrow> (d(p \<mapsto> DFile []), None)))"

definition write_at :: "nat \<Rightarrow> byte list \<Rightarrow> byte list \<Rightarrow> byte list" where
  "write_at off bs old =
     take off old @ replicate (off - length old) 0 @ bs @ drop (off + length bs) old"

definition Write :: "fs \<Rightarrow> path \<Rightarrow> nat \<Rightarrow> byte list \<Rightarrow> fs" where
  "Write d p off bs =
     (case d p of
        Some (DFile old) \<Rightarrow> d(p \<mapsto> DFile (write_at off bs old))
      | Some DDir \<Rightarrow> d
      | None \<Rightarrow> d)"

section \<open>CopyDirectory and CountFiles\<close>

text \<open>
  \<open>BufferSize\<close> is a Go \<open>int\<close>: 64 bits, read as a signed number (\<open>sint\<close>), on the
  64-bit platforms.
\<close>

record CopyDirectory =
  BufferSize :: "64 word"

text \<open>
  \<open>CountFiles\<close> returns Go's pair \<open>(int, error)\<close>; the loop over the entries is
  \<open>CountFiles_loop\<close>, with the running \<open>count\<close> as its last argument. Counts are
  natural numbers: they stay far below the range of Go's \<open>int\<close>.
\<close>

fun CountFiles :: "path \<Rightarrow> snode \<Rightarrow> nat \<times> error option"
  and CountFiles_loop :: "path \<Rightarrow> (string \<times> snode) list \<Rightarrow> nat \<Rightarrow> nat \<times> error option" where
  "CountFiles directory (SFile oe bs re) =
     (0, Some (PathError ''readdirent'' directory ENOTDIR))"
| "CountFiles directory (SDir (Some e) es) = (0, Some (PathError ''open'' directory e))"
| "CountFiles directory (SDir None es) = CountFiles_loop directory es 0"
| "CountFiles_loop directory [] count = (count, None)"
| "CountFiles_loop directory ((name, entry) # entries) count =
     (if IsDir entry then
        (case CountFiles (directory @ [name]) entry of
           (subCount, Some err) \<Rightarrow> (0, Some err)
         | (subCount, None) \<Rightarrow> CountFiles_loop directory entries (count + subCount))
      else CountFiles_loop directory entries (count + 1))"

text \<open>
  The buffer of lines 107 to 111: 1 MiB unless \<open>BufferSize\<close> is positive.
  \<open>make([]byte, n)\<close> panics when \<open>n\<close> is negative or more than the run time
  allocates; \<open>maxAlloc\<close> is that bound on the 64-bit platforms (\<open>1 << 48\<close> bytes in
  \<open>runtime/malloc.go\<close>). \<open>None\<close> is the panic. \<open>allocates cd\<close> says that the buffer
  of \<open>cd\<close> is within the bound.
\<close>

definition bufSize :: "CopyDirectory \<Rightarrow> 64 word" where
  "bufSize cd =
     (let bufSize = 1024 * 1024 in if 0 <s BufferSize cd then BufferSize cd else bufSize)"

definition maxAlloc :: int where
  "maxAlloc = 2 ^ 48"

definition make_buf :: "64 word \<Rightarrow> byte list option" where
  "make_buf n =
     (if sint n < 0 \<or> maxAlloc < sint n then None else Some (replicate (nat (sint n)) 0))"

definition allocates :: "CopyDirectory \<Rightarrow> bool" where
  "allocates cd = (sint (bufSize cd) \<le> maxAlloc)"

text \<open>
  \<open>io.CopyBuffer(destinationFile, sourceFile, buf)\<close> stages the copy through \<open>buf\<close>:
  it reads up to \<open>len(buf)\<close> bytes from the source and writes them to the destination
  file, again and again until the source is at its end or a read fails; it panics
  (\<open>None\<close>) when \<open>buf\<close> is empty. \<open>reads n bs\<close> are the chunks that the reads through a
  buffer of \<open>n\<close> bytes deliver of a source holding \<open>bs\<close>, and \<open>copy_chunks\<close> writes
  them one after the other.
\<close>

fun reads :: "nat \<Rightarrow> byte list \<Rightarrow> byte list list" where
  "reads n bs = (if n = 0 \<or> bs = [] then [] else take n bs # reads n (drop n bs))"

declare reads.simps [simp del]

fun copy_chunks :: "fs \<Rightarrow> path \<Rightarrow> nat \<Rightarrow> byte list list \<Rightarrow> fs" where
  "copy_chunks d p off [] = d"
| "copy_chunks d p off (c # cs) = copy_chunks (Write d p off c) p (off + length c) cs"

definition CopyBuffer ::
  "fs \<Rightarrow> path \<Rightarrow> path \<Rightarrow> snode \<Rightarrow> byte list \<Rightarrow> (fs \<times> error option) option" where
  "CopyBuffer d dst src file buf =
     (if buf = [] then None
      else (case Read src file of
              (bs, err) \<Rightarrow> Some (copy_chunks d dst 0 (reads (length buf) bs), err)))"

text \<open>
  \<open>transferred d dst bs\<close> is the disk \<open>d\<close> with the bytes \<open>bs\<close> written to the file \<open>dst\<close>
  from offset 0 on, in one piece.
\<close>

definition transferred :: "fs \<Rightarrow> path \<Rightarrow> byte list \<Rightarrow> fs" where
  "transferred d dst bs =
     (case d dst of
        Some (DFile old) \<Rightarrow> d(dst \<mapsto> DFile (bs @ drop (length bs) old))
      | Some DDir \<Rightarrow> d
      | None \<Rightarrow> d)"

section \<open>CopyFilesAndDirectory as interleaved steps\<close>

text \<open>
  \<open>CopyFilesAndDirectory\<close> starts one goroutine per subdirectory, so a run is an
  interleaving of steps. The shared world is the destination disk and the progress
  channel. The channel is unbuffered and drained by the goroutine that \<open>Copy\<close> or
  \<open>CopyMultipleSources\<close> starts (\<open>for range progressChan { bar.Add(1) }\<close>): while
  the channel is open a send is one step that advances \<open>bar\<close>; a send on the closed
  channel is Go's run-time panic, which ends the program.
\<close>

record glob =
  disk :: fs
  closed :: bool
  bar :: nat
  panicked :: bool

text \<open>
  The program points of one activation of \<open>CopyFilesAndDirectory\<close>:
  \<open>PStat\<close> line 45, \<open>PMkdir\<close> line 46, \<open>PReadDir\<close> line 53, \<open>PLoop\<close> the head of the loop of
  line 70 (with no entry left: \<open>waitGroup.Wait()\<close>, line 130), \<open>PCreate\<close> line 100,
  \<open>PTransfer\<close> lines 107 to 115, \<open>PSend\<close> line 122, \<open>PIncr\<close> lines 123 to 125, and
  \<open>PRet count err\<close> once the activation has returned \<open>(count, err)\<close>. A panic of
  \<open>make\<close> or of \<open>io.CopyBuffer\<close> ends the program like the send on a closed channel.

  The goroutine of lines 77 to 91 runs the recursive call (\<open>GCall\<close>) and then, each
  under its mutex, adds the count to the parent's \<open>fileCount\<close>, records the error in
  the parent's \<open>firstErr\<close> (\<open>GErr\<close>), and calls \<open>waitGroup.Done()\<close> (\<open>GDone\<close>); after
  that it is gone (\<open>GExit\<close>).
\<close>

datatype pc = PStat | PMkdir | PReadDir | PLoop | PCreate | PTransfer | PSend | PIncr
  | PRet nat "error option"

datatype gpc = GCall | GErr | GDone | GExit

record frame =
  sourceDirectory :: path
  sourceNode :: snode
  destinationDirectory :: path
  pc :: pc
  entries :: "(string \<times> snode) list"
  fileCount :: nat
  firstErr :: "error option"
  waitGroup :: nat
  gpc :: gpc

text \<open>An activation with the goroutines it has started, in the order of their start.\<close>

datatype call = Call frame "call list"

fun frame_of :: "call \<Rightarrow> frame" where
  "frame_of (Call fr kids) = fr"

fun kids_of :: "call \<Rightarrow> call list" where
  "kids_of (Call fr kids) = kids"

fun returned :: "pc \<Rightarrow> bool" where
  "returned (PRet count err) = True"
| "returned PStat = False"
| "returned PMkdir = False"
| "returned PReadDir = False"
| "returned PLoop = False"
| "returned PCreate = False"
| "returned PTransfer = False"
| "returned PSend = False"
| "returned PIncr = False"

definition spawn :: "path \<Rightarrow> snode \<Rightarrow> path \<Rightarrow> call" where
  "spawn src node dst =
     Call \<lparr>sourceDirectory = src, sourceNode = node, destinationDirectory = dst, pc = PStat,
           entries = [], fileCount = 0, firstErr = None, waitGroup = 0, gpc = GCall\<rparr> []"

text \<open>
  One step of the activation's own thread: the new frame, the goroutine it started
  (if any) and the new world. An error return reads \<open>fileCount\<close> as it is at that
  moment; \<open>waitGroup.Wait()\<close> can only be passed when the counter is 0.
\<close>

definition step_own :: "CopyDirectory \<Rightarrow> frame \<Rightarrow> glob \<Rightarrow> frame \<times> call list \<times> glob" where
  "step_own cd fr s =
     (case pc fr of
        PStat \<Rightarrow>
          (if IsNotExist (Stat (disk s) (destinationDirectory fr))
           then (fr\<lparr>pc := PMkdir\<rparr>, [], s) else (fr\<lparr>pc := PReadDir\<rparr>, [], s))
      | PMkdir \<Rightarrow>
          (case MkdirAll (disk s) (destinationDirectory fr) of
             (d', Some err) \<Rightarrow> (fr\<lparr>pc := PRet 0 (Some err)\<rparr>, [], s)
           | (d', None) \<Rightarrow> (fr\<lparr>pc := PReadDir\<rparr>, [], s\<lparr>disk := d'\<rparr>))
      | PReadDir \<Rightarrow>
          (case ReadDir (sourceDirectory fr) (sourceNode fr) of
             (es, Some err) \<Rightarrow> (fr\<lparr>pc := PRet 0 (Some err)\<rparr>, [], s)
           | (es, None) \<Rightarrow> (fr\<lparr>pc := PLoop, entries := es\<rparr>, [], s))
      | PLoop \<Rightarrow>
          (case entries fr of
             [] \<Rightarrow>
               (if waitGroup fr = 0 then (fr\<lparr>pc := PRet (fileCount fr) (firstErr fr)\<rparr>, [], s)
                else (fr, [], s))
           | (name, entry) # rest \<Rightarrow>
               (if IsDir entry then
                  (fr\<lparr>waitGroup := waitGroup fr + 1, entries := rest\<rparr>,
                   [spawn (sourceDirectory fr @ [name]) entry (destinationDirectory fr @ [name])],
                   s)
                else
                  (case Open (sourceDirectory fr @ [name]) entry of
                     Some err \<Rightarrow> (fr\<lparr>pc := PRet (fileCount fr) (Some err)\<rparr>, [], s)
                   | None \<Rightarrow> (fr\<lparr>pc := PCreate\<rparr>, [], s))))
      | PCreate \<Rightarrow>
          (case entries fr of
             [] \<Rightarrow> (fr, [], s)
           | (name, entry) # rest \<Rightarrow>
               (case Create (disk s) (destinationDirectory fr @ [name]) of
                  (d', Some err) \<Rightarrow> (fr\<lparr>pc := PRet (fileCount fr) (Some err)\<rparr>, [], s)
                | (d', None) \<Rightarrow> (fr\<lparr>pc := PTransfer\<rparr>, [], s\<lparr>disk := d'\<rparr>)))
      | PTransfer \<Rightarrow>
          (case entries fr of
             [] \<Rightarrow> (fr, [], s)
           | (name, entry) # rest \<Rightarrow>
               (case make_buf (bufSize cd) of
                  None \<Rightarrow> (fr, [], s\<lparr>panicked := True\<rparr>)
                | Some buf \<Rightarrow>
                    (case CopyBuffer (disk s) (destinationDirectory fr @ [name])
                            (sourceDirectory fr @ [name]) entry buf of
                       None \<Rightarrow> (fr, [], s\<lparr>panicked := True\<rparr>)
                     | Some (d', Some err) \<Rightarrow>
                         (fr\<lparr>pc := PRet (fileCount fr) (Some err)\<rparr>, [], s\<lparr>disk := d'\<rparr>)
                     | Some (d', None) \<Rightarrow> (fr\<lparr>pc := PSend\<rparr>, [], s\<lparr>disk := d'\<rparr>))))
      | PSend \<Rightarrow>
          (if closed s then (fr, [], s\<lparr>panicked := True\<rparr>)
           else (fr\<lparr>pc := PIncr\<rparr>, [], s\<lparr>bar := bar s + 1\<rparr>))
      | PIncr \<Rightarrow>
          (fr\<lparr>pc := PLoop, fileCount := fileCount fr + 1, entries := tl (entries fr)\<rparr>, [], s)
      | PRet count err \<Rightarrow> (fr, [], s))"

text \<open>One step of a goroutine whose recursive call has returned (lines 80 to 90, and 78).\<close>

definition step_merge :: "frame \<Rightarrow> frame \<Rightarrow> frame \<times> frame" where
  "step_merge par kid =
     (case pc kid of
        PRet count err \<Rightarrow>
          (case gpc kid of
             GCall \<Rightarrow> (par\<lparr>fileCount := fileCount par + count\<rparr>,
                        kid\<lparr>gpc := (if err \<noteq> None then GErr else GDone)\<rparr>)
           | GErr \<Rightarrow> (par\<lparr>firstErr := (if firstErr par = None then err else firstErr par)\<rparr>,
                       kid\<lparr>gpc := GDone\<rparr>)
           | GDone \<Rightarrow> (par\<lparr>waitGroup := waitGroup par - 1\<rparr>, kid\<lparr>gpc := GExit\<rparr>)
           | GExit \<Rightarrow> (par, kid))
      | PStat \<Rightarrow> (par, kid) | PMkdir \<Rightarrow> (par, kid) | PReadDir \<Rightarrow> (par, kid)
      | PLoop \<Rightarrow> (par, kid) | PCreate \<Rightarrow> (par, kid) | PTransfer \<Rightarrow> (par, kid)
      | PSend \<Rightarrow> (par, kid) | PIncr \<Rightarrow> (par, kid))"

text \<open>
  The scheduler names the thread that moves by its position in the tree of
  activations: \<open>[]\<close> is the activation's own thread, \<open>i # t\<close> is thread \<open>t\<close> below the
  \<open>i\<close>-th goroutine it started. A position where nothing can move leaves the state as
  it is.
\<close>

fun step_call :: "CopyDirectory \<Rightarrow> nat list \<Rightarrow> call \<Rightarrow> glob \<Rightarrow> call \<times> glob" where
  "step_call cd [] (Call fr kids) s =
     (case step_own cd fr s of (fr', new, s') \<Rightarrow> (Call fr' (kids @ new), s'))"
| "step_call cd (i # t) (Call fr kids) s =
     (if i < length kids then
        (if t = [] \<and> returned (pc (frame_of (kids ! i))) then
           (case step_merge fr (frame_of (kids ! i)) of
              (fr', kfr') \<Rightarrow> (Call fr' (kids[i := Call kfr' (kids_of (kids ! i))]), s))
         else
           (case step_call cd t (kids ! i) s of
              (k', s') \<Rightarrow> (Call fr (kids[i := k']), s')))
      else (Call fr kids, s))"

text \<open>A run under a schedule; after a panic nothing moves any more.\<close>

fun run_call :: "CopyDirectory \<Rightarrow> nat list list \<Rightarrow> call \<times> glob \<Rightarrow> call \<times> glob" where
  "run_call cd [] cs = cs"
| "run_call cd (t # ts) (c, s) =
     run_call cd ts (if panicked s then (c, s) else step_call cd t c s)"

definition CopyFilesAndDirectory ::
  "CopyDirectory \<Rightarrow> nat list list \<Rightarrow> path \<Rightarrow> snode \<Rightarrow> path \<Rightarrow> glob \<Rightarrow> call \<times> glob" where
  "CopyFilesAndDirectory cd ts sourceDir node destinationDir s =
     run_call cd ts (spawn sourceDir node destinationDir, s)"

text \<open>What the call has returned, if it has.\<close>

fun result :: "call \<Rightarrow> (nat \<times> error option) option" where
  "result (Call fr kids) =
     (case pc fr of PRet count err \<Rightarrow> Some (count, err)
      | PStat \<Rightarrow> None | PMkdir \<Rightarrow> None | PReadDir \<Rightarrow> None | PLoop \<Rightarrow> None
      | PCreate \<Rightarrow> None | PTransfer \<Rightarrow> None | PSend \<Rightarrow> None | PIncr \<Rightarrow> None)"

section \<open>Copy and CopyMultipleSources\<close>

text \<open>
  The state of a run of \<open>Copy\<close> or of \<open>CopyMultipleSources\<close>: where the calling
  thread stands, the activations of \<open>CopyFilesAndDirectory\<close> it has started, the
  world, the progress bar (\<open>total\<close> is its maximum, \<open>finished\<close> records
  \<open>bar.Finish()\<close>) and, for \<open>CopyMultipleSources\<close>, the sources not yet dispatched, its
  wait group and its two buffered channels. \<open>Copy\<close> does not use the last four.
\<close>

datatype opc = OCount | ORun | OStat | OMkdir | OSpawn | OClosed | ORet nat "error option"

record ostate =
  opc :: opc
  calls :: "call list"
  world :: glob
  total :: nat
  finished :: bool
  pending :: "(path \<times> snode) list"
  owg :: nat
  countChan :: "nat list"
  errChan :: "error list"

definition start :: "fs \<Rightarrow> ostate" where
  "start d =
     \<lparr>opc = OCount, calls = [],
      world = \<lparr>disk = d, closed = False, bar = 0, panicked = False\<rparr>,
      total = 0, finished = False, pending = [], owg = 0, countChan = [], errChan = []\<rparr>"

text \<open>
  \<open>Copy\<close> counts (lines 137 to 140), then runs \<open>CopyFilesAndDirectory\<close> in its own
  thread (line 159): position \<open>[]\<close> is that thread, the other positions are the
  goroutines below it. When the call has returned, the thread closes the channel
  (line 160, \<open>OClosed\<close>) and then returns what the call returned (lines 162 to 168).
  Goroutines that are still running keep running.
\<close>

definition step_below :: "CopyDirectory \<Rightarrow> nat list \<Rightarrow> ostate \<Rightarrow> ostate" where
  "step_below cd t st =
     (case calls st of
        [] \<Rightarrow> st
      | c # cs \<Rightarrow>
          (case step_call cd t c (world st) of
             (c', w') \<Rightarrow> st\<lparr>calls := c' # cs, world := w'\<rparr>))"

definition Copy_step ::
  "CopyDirectory \<Rightarrow> path \<Rightarrow> snode \<Rightarrow> path \<Rightarrow> nat list \<Rightarrow> ostate \<Rightarrow> ostate" where
  "Copy_step cd source node destination t st =
     (if panicked (world st) then st
      else
        (case t of
           [] \<Rightarrow>
             (case opc st of
                OCount \<Rightarrow>
                  (case CountFiles source node of
                     (totalFiles, Some err) \<Rightarrow> st\<lparr>opc := ORet 0 (Some err)\<rparr>
                   | (totalFiles, None) \<Rightarrow>
                       st\<lparr>opc := ORun, total := totalFiles,
                          calls := [spawn source node destination]\<rparr>)
              | ORun \<Rightarrow>
                  (case map result (calls st) of
                     [Some (copied, err)] \<Rightarrow>
                       st\<lparr>opc := OClosed, world := (world st)\<lparr>closed := True\<rparr>\<rparr>
                   | rs \<Rightarrow> step_below cd [] st)
              | OClosed \<Rightarrow>
                  (case map result (calls st) of
                     [Some (copied, err)] \<Rightarrow>
                       (if err \<noteq> None then st\<lparr>opc := ORet copied err\<rparr>
                        else st\<lparr>opc := ORet copied None, finished := True\<rparr>)
                   | rs \<Rightarrow> st)
              | ORet copied err \<Rightarrow> st
              | OStat \<Rightarrow> st
              | OMkdir \<Rightarrow> st
              | OSpawn \<Rightarrow> st)
         | i # t' \<Rightarrow> step_below cd t st))"

fun run_Copy ::
  "CopyDirectory \<Rightarrow> path \<Rightarrow> snode \<Rightarrow> path \<Rightarrow> nat list list \<Rightarrow> ostate \<Rightarrow> ostate" where
  "run_Copy cd source node destination [] st = st"
| "run_Copy cd source node destination (t # ts) st =
     run_Copy cd source node destination ts (Copy_step cd source node destination t st)"

definition Copy ::
  "CopyDirectory \<Rightarrow> nat list list \<Rightarrow> path \<Rightarrow> snode \<Rightarrow> path \<Rightarrow> fs \<Rightarrow> ostate" where
  "Copy cd ts source node destination d = run_Copy cd source node destination ts (start d)"

text \<open>The counting loop of \<open>CopyMultipleSources\<close>, lines 174 to 181.\<close>

fun count_sources :: "(path \<times> snode) list \<Rightarrow> nat \<Rightarrow> nat \<times> error option" where
  "count_sources [] totalFiles = (totalFiles, None)"
| "count_sources ((source, node) # sources) totalFiles =
     (case CountFiles source node of
        (count, Some err) \<Rightarrow> (0, Some err)
      | (count, None) \<Rightarrow> count_sources sources (totalFiles + count))"

text \<open>
  One step of the goroutine of lines 215 to 223 once its call has returned: send the
  count, send the error if there is one, \<open>waitGroup.Done()\<close>. Both channels have
  room for one value per source, so no send waits.
\<close>

definition step_collect :: "nat \<Rightarrow> ostate \<Rightarrow> ostate" where
  "step_collect i st =
     (case calls st ! i of
        Call fr kids \<Rightarrow>
          (case result (Call fr kids) of
             None \<Rightarrow> st
           | Some (count, err) \<Rightarrow>
               (case gpc fr of
                  GCall \<Rightarrow>
                    st\<lparr>countChan := countChan st @ [count],
                       calls := (calls st)[i := Call (fr\<lparr>gpc := (if err \<noteq> None then GErr else GDone)\<rparr>) kids]\<rparr>
                | GErr \<Rightarrow>
                    st\<lparr>errChan := errChan st @ (case err of None \<Rightarrow> [] | Some e \<Rightarrow> [e]),
                       calls := (calls st)[i := Call (fr\<lparr>gpc := GDone\<rparr>) kids]\<rparr>
                | GDone \<Rightarrow>
                    st\<lparr>owg := owg st - 1, calls := (calls st)[i := Call (fr\<lparr>gpc := GExit\<rparr>) kids]\<rparr>
                | GExit \<Rightarrow> st)))"

text \<open>
  \<open>CopyMultipleSources\<close>: position \<open>[]\<close> is the calling thread, \<open>i # t\<close> is thread \<open>t\<close>
  below the goroutine of the \<open>i\<close>-th source. The calling thread counts (\<open>OCount\<close>),
  ensures the destination (\<open>OStat\<close>, \<open>OMkdir\<close>, lines 200 to 206), starts one goroutine
  per source (\<open>OSpawn\<close>, lines 213 to 224) and, with no source left, waits; when the
  wait group is at 0 it closes the channels (lines 228 to 230, \<open>OClosed\<close>), and then
  sums \<open>countChan\<close> and returns (lines 233 to 244).
\<close>

definition CopyMultipleSources_step ::
  "CopyDirectory \<Rightarrow> (path \<times> snode) list \<Rightarrow> path \<Rightarrow> nat list \<Rightarrow> ostate \<Rightarrow> ostate" where
  "CopyMultipleSources_step cd sources destination t st =
     (if panicked (world st) then st
      else
        (case t of
           [] \<Rightarrow>
             (case opc st of
                OCount \<Rightarrow>
                  (case count_sources sources 0 of
                     (totalFiles, Some err) \<Rightarrow> st\<lparr>opc := ORet 0 (Some err)\<rparr>
                   | (totalFiles, None) \<Rightarrow> st\<lparr>opc := OStat, total := totalFiles\<rparr>)
              | OStat \<Rightarrow>
                  (if IsNotExist (Stat (disk (world st)) destination)
                   then st\<lparr>opc := OMkdir\<rparr> else st\<lparr>opc := OSpawn, pending := sources\<rparr>)
              | OMkdir \<Rightarrow>
                  (case MkdirAll (disk (world st)) destination of
                     (d', Some err) \<Rightarrow>
                       st\<lparr>opc := ORet 0 (Some err), world := (world st)\<lparr>closed := True\<rparr>\<rparr>
                   | (d', None) \<Rightarrow>
                       st\<lparr>opc := OSpawn, pending := sources, world := (world st)\<lparr>disk := d'\<rparr>\<rparr>)
              | OSpawn \<Rightarrow>
                  (case pending st of
                     (source, node) # rest \<Rightarrow>
                       st\<lparr>owg := owg st + 1, calls := calls st @ [spawn source node destination],
                          pending := rest\<rparr>
                   | [] \<Rightarrow>
                       (if owg st = 0
                        then st\<lparr>opc := OClosed, world := (world st)\<lparr>closed := True\<rparr>\<rparr>
                        else st))
              | OClosed \<Rightarrow>
                  st\<lparr>opc := ORet (sum_list (countChan st))
                             (case errChan st of [] \<Rightarrow> None | e # es \<Rightarrow> Some e),
                     finished := True\<rparr>
              | ORun \<Rightarrow> st
              | ORet totalFilesCopied err \<Rightarrow> st)
         | i # t' \<Rightarrow>
             (if i < length (calls st) then
                (if t' = [] \<and> returned (pc (frame_of (calls st ! i))) then step_collect i st
                 else
                   (case step_call cd t' (calls st ! i) (world st) of
                      (c', w') \<Rightarrow> st\<lparr>calls := (calls st)[i := c'], world := w'\<rparr>))
              else st)))"

fun run_CopyMultipleSources ::
  "CopyDirectory \<Rightarrow> (path \<times> snode) list \<Rightarrow> path \<Rightarrow> nat list list \<Rightarrow> ostate \<Rightarrow> ostate" where
  "run_CopyMultipleSources cd sources destination [] st = st"
| "run_CopyMultipleSources cd sources destination (t # ts) st =
     run_CopyMultipleSources cd sources destination ts
       (CopyMultipleSources_step cd sources destination t st)"

definition CopyMultipleSources ::
  "CopyDirectory \<Rightarrow> nat list list \<Rightarrow> (path \<times> snode) list \<Rightarrow> path \<Rightarrow> fs \<Rightarrow> ostate" where
  "CopyMultipleSources cd ts sources destination d =
     run_CopyMultipleSources cd sources destination ts (start d)"

section \<open>Reference notions for the statements\<close>

text \<open>The entries of a tree that are not directories.\<close>

fun leaves :: "snode \<Rightarrow> nat" where
  "leaves (SFile oe bs re) = 1"
| "leaves (SDir le es) = sum_list (map (\<lambda>e. leaves (snd e)) es)"

text \<open>A directory tree every directory of which can be listed.\<close>

fun listable :: "snode \<Rightarrow> bool" where
  "listable (SFile oe bs re) = False"
| "listable (SDir le es) = (le = None \<and> list_all (\<lambda>e. IsDir (snd e) \<longrightarrow> listable (snd e)) es)"

definition example_tree :: snode where
  "example_tree =
     SDir None [(''a'', SDir None [(''f'', SFile None [1, 2] None)]),
                (''b'', SFile (Some EACCES) [] None)]"

text \<open>
  Inputs for the concrete runs below: a tree whose file \<open>b\<close> cannot be opened next to
  a subdirectory, the same one level down, a tree with a directory that cannot be
  listed, a disk that holds the root only, and the world in which the progress
  channel is open.
\<close>

definition nested_tree :: snode where
  "nested_tree =
     SDir None [(''a'', SDir None [(''c'', SDir None [(''f'', SFile None [1, 2] None)]),
                                   (''d'', SFile (Some EACCES) [] None)])]"

definition unlistable_tree :: snode where
  "unlistable_tree =
     SDir None [(''x'', SFile None [7] None),
                (''y'', SDir (Some EACCES) [])]"

definition two_sources :: "(path \<times> snode) list" where
  "two_sources =
     [([''A''], SDir None [(''x'', SFile None [1] None)]), ([''B''], unlistable_tree)]"

definition root_only :: fs where
  "root_only = (\<lambda>p. if p = [] then Some DDir else None)"

definition open_world :: "fs \<Rightarrow> glob" where
  "open_world d = \<lparr>disk = d, closed = False, bar = 0, panicked = False\<rparr>"

section \<open>What CopyMultipleSources has collected\<close>

text \<open>
  For the run of \<open>CopyMultipleSources\<close>: \<open>collected\<close> is what the goroutine of a source
  has sent on \<open>countChan\<close>, \<open>reported\<close> what it has sent on \<open>errChan\<close>, \<open>alive\<close> whether the
  wait group still counts it, and \<open>returned_count\<close> the count its call returned.
  \<open>minv\<close> relates the two channels and the wait group to the goroutines at every
  point of the calling thread.
\<close>

definition collected :: "call \<Rightarrow> nat" where
  "collected c =
     (case result c of
        None \<Rightarrow> 0
      | Some (count, err) \<Rightarrow> (if gpc (frame_of c) = GCall then 0 else count))"

definition reported :: "call \<Rightarrow> error list" where
  "reported c =
     (case result c of
        None \<Rightarrow> []
      | Some (count, None) \<Rightarrow> []
      | Some (count, Some e) \<Rightarrow>
          (if gpc (frame_of c) = GDone \<or> gpc (frame_of c) = GExit then [e] else []))"

definition alive :: "call \<Rightarrow> nat" where
  "alive c = (if gpc (frame_of c) = GExit then 0 else 1)"

definition src_of :: "call \<Rightarrow> path \<times> snode" where
  "src_of c = (sourceDirectory (frame_of c), sourceNode (frame_of c))"

definition sane :: "call \<Rightarrow> bool" where
  "sane c = ((gpc (frame_of c) = GCall \<or> result c \<noteq> None) \<and>
             (gpc (frame_of c) = GErr \<longrightarrow> (\<exists>count e. result c = Some (count, Some e))))"

definition sums :: "ostate \<Rightarrow> bool" where
  "sums st =
     (sum_list (countChan st) = sum_list (map collected (calls st)) \<and>
      set (errChan st) = set (concat (map reported (calls st))) \<and>
      owg st = sum_list (map alive (calls st)) \<and>
      list_all sane (calls st))"

definition idle :: "ostate \<Rightarrow> bool" where
  "idle st = (calls st = [] \<and> countChan st = [] \<and> errChan st = [] \<and> owg st = 0)"

definition returned_count :: "call \<Rightarrow> nat" where
  "returned_count c = (case result c of None \<Rightarrow> 0 | Some (count, err) \<Rightarrow> count)"

definition minv :: "(path \<times> snode) list \<Rightarrow> ostate \<Rightarrow> bool" where
  "minv sources st =
     (case opc st of
        OCount \<Rightarrow> idle st
      | OStat \<Rightarrow> idle st
      | OMkdir \<Rightarrow> idle st
      | ORun \<Rightarrow> idle st
      | OSpawn \<Rightarrow> sums st \<and> map src_of (calls st) @ pending st = sources
      | OClosed \<Rightarrow> sums st \<and> map src_of (calls st) = sources \<and> owg st = 0
      | ORet n e \<Rightarrow>
          calls st = [] \<or>
          (sums st \<and> map src_of (calls st) = sources \<and> owg st = 0 \<and>
           n = sum_list (countChan st) \<and>
           e = (case errChan st of [] \<Rightarrow> None | x # xs \<Rightarrow> Some x)))"

text \<open>Two sources, the first with a file that cannot be opened, and a schedule that runs them one after the other.\<close>

definition failing_sources :: "(path \<times> snode) list" where
  "failing_sources =
     [([''A''], SDir None [(''x'', SFile None [1] None), (''y'', SFile (Some EACCES) [] None)]),
      ([''B''], SDir None [(''z'', SFile None [2] None)])]"

definition failing_schedule :: "nat list list" where
  "failing_schedule =
     [[], [], [], [], []] @ [[0], [0], [0], [0], [0], [0], [0], [0]] @ [[0], [0], [0]] @
     [[1], [1], [1], [1], [1], [1], [1], [1]] @ [[1], [1]] @ [[], []]"

text \<open>
  Two sources, the first with a subdirectory and a file that cannot be opened, and a
  schedule that lets the goroutine of that subdirectory run last.
\<close>

definition orphan_sources :: "(path \<times> snode) list" where
  "orphan_sources =
     [([''A''], SDir None [(''a'', SDir None [(''f'', SFile None [1, 2] None)]),
                           (''b'', SFile (Some EACCES) [] None)]),
      ([''B''], SDir None [(''z'', SFile None [2] None)])]"

definition orphan_schedule :: "nat list list" where
  "orphan_schedule =
     [[], [], [], [], []] @ [[0], [0], [0], [0]] @ [[0], [0], [0]] @
     [[1], [1], [1], [1], [1], [1], [1], [1]] @ [[1], [1]] @ [[]] @
     [[0, 0], [0, 0], [0, 0], [0, 0], [0, 0], [0, 0], [0, 0]]"

section \<open>Copying a tree without failures\<close>

text \<open>
  The notions the statements about a complete copy are written in. A source tree is
  \<open>clean\<close> when no \<open>os.ReadDir\<close>, \<open>os.Open\<close> or read of it fails and the names in each
  directory are distinct. A disk \<open>fits\<close> a tree at a path when it holds no regular file
  where the tree has a directory and no directory where the tree has a file (there
  \<open>os.MkdirAll\<close> or \<open>os.Create\<close> would fail). A destination is \<open>ready\<close> when no prefix
  of it is a regular file and, if it exists, so do the directories above it.
  \<open>lookup T rel\<close> is the entry of \<open>T\<close> at the relative path \<open>rel\<close>, and \<open>overlay b d T\<close> is
  the disk \<open>b\<close> with the directory \<open>d\<close> made and \<open>T\<close> laid over what is below \<open>d\<close>.
\<close>

fun es_of :: "snode \<Rightarrow> (string \<times> snode) list" where
  "es_of (SDir le es) = es"
| "es_of (SFile oe bs re) = []"

fun bytes_of :: "snode \<Rightarrow> byte list" where
  "bytes_of (SFile oe bs re) = bs"
| "bytes_of (SDir le es) = []"

fun dest_of :: "snode \<Rightarrow> dnode" where
  "dest_of (SFile oe bs re) = DFile bs"
| "dest_of (SDir le es) = DDir"

fun clean :: "snode \<Rightarrow> bool" where
  "clean (SFile oe bs re) = (oe = None \<and> re = None)"
| "clean (SDir le es) = (le = None \<and> distinct (map fst es) \<and> list_all (\<lambda>e. clean (snd e)) es)"

fun fits :: "fs \<Rightarrow> path \<Rightarrow> snode \<Rightarrow> bool" where
  "fits f p (SFile oe bs re) = (f p \<noteq> Some DDir)"
| "fits f p (SDir le es) = (\<not> is_file (f p) \<and> list_all (\<lambda>e. fits f (p @ [fst e]) (snd e)) es)"

fun lookup :: "snode \<Rightarrow> path \<Rightarrow> snode option" where
  "lookup T [] = Some T"
| "lookup (SFile oe bs re) (n # r) = None"
| "lookup (SDir le es) (n # r) = (case map_of es n of None \<Rightarrow> None | Some x \<Rightarrow> lookup x r)"

definition ready :: "fs \<Rightarrow> path \<Rightarrow> bool" where
  "ready f d = (list_all (\<lambda>q. \<not> is_file (f q)) (prefixes d) \<and>
               (f d = None \<or> list_all (\<lambda>q. f q = Some DDir) (prefixes d)))"

definition anc :: "fs \<Rightarrow> path \<Rightarrow> bool" where
  "anc f d = (\<forall>q. strict_prefix q d \<longrightarrow> f q = Some DDir)"

definition overlay :: "fs \<Rightarrow> path \<Rightarrow> snode \<Rightarrow> fs" where
  "overlay b d T p =
     (if prefix d p then
        (case lookup T (drop (length d) p) of Some x \<Rightarrow> Some (dest_of x) | None \<Rightarrow> b p)
      else fst (MkdirAll b d) p)"

subsection \<open>The invariant of a call\<close>

text \<open>
  What holds of every activation of \<open>CopyFilesAndDirectory\<close> between two steps, on a
  clean tree: \<open>dn\<close> are the entries the loop is done with, \<open>static\<close> is about the
  arguments, \<open>control\<close> relates the program counter to the local variables, \<open>tally\<close>
  relates \<open>fileCount\<close> and the wait group to the goroutines started, and \<open>dstate\<close> says
  what the disk \<open>f\<close> holds below the destination directory, \<open>b\<close> being the disk before
  the copy. The names of the subdirectories are left to the goroutines that copy
  them. \<open>rinv\<close> adds what holds of the outermost call and of the world.
\<close>

definition inflight :: "pc \<Rightarrow> bool" where
  "inflight p = (p = PCreate \<or> p = PTransfer \<or> p = PSend \<or> p = PIncr)"

definition early :: "pc \<Rightarrow> bool" where
  "early p = (p = PStat \<or> p = PMkdir \<or> p = PReadDir)"

definition merged :: "call \<Rightarrow> nat" where
  "merged k = (if gpc (frame_of k) = GCall then 0 else leaves (sourceNode (frame_of k)))"

definition args_of :: "call \<Rightarrow> path \<times> snode \<times> path" where
  "args_of k =
     (sourceDirectory (frame_of k), sourceNode (frame_of k), destinationDirectory (frame_of k))"

definition dirs :: "(string \<times> snode) list \<Rightarrow> (string \<times> snode) list" where
  "dirs es = filter (\<lambda>e. IsDir (snd e)) es"

definition files :: "(string \<times> snode) list \<Rightarrow> (string \<times> snode) list" where
  "files es = filter (\<lambda>e. \<not> IsDir (snd e)) es"

definition settled :: "fs \<Rightarrow> path \<Rightarrow> (string \<times> snode) list \<Rightarrow> string \<Rightarrow> dnode option" where
  "settled b d dn n =
     (case map_of (files dn) n of
        Some x \<Rightarrow> Some (DFile (bytes_of x))
      | None \<Rightarrow> b (d @ [n]))"

definition headval ::
  "fs \<Rightarrow> path \<Rightarrow> (string \<times> snode) list \<Rightarrow> pc \<Rightarrow> (string \<times> snode) list \<Rightarrow> string
     \<Rightarrow> dnode option" where
  "headval b d ents p dn n =
     (case ents of
        [] \<Rightarrow> settled b d dn n
      | e # rest \<Rightarrow>
          if fst e = n \<and> (p = PSend \<or> p = PIncr) then Some (DFile (bytes_of (snd e)))
          else if fst e = n \<and> p = PTransfer then Some (DFile [])
          else settled b d dn n)"

definition static :: "fs \<Rightarrow> frame \<Rightarrow> bool" where
  "static b fr =
     (IsDir (sourceNode fr) \<and> clean (sourceNode fr) \<and>
      fits b (destinationDirectory fr) (sourceNode fr))"

definition control :: "frame \<Rightarrow> call list \<Rightarrow> (string \<times> snode) list \<Rightarrow> bool" where
  "control fr kids dn =
     (es_of (sourceNode fr) = dn @ (if early (pc fr) then es_of (sourceNode fr) else entries fr) \<and>
      (early (pc fr) \<longrightarrow> entries fr = [] \<and> kids = [] \<and> fileCount fr = 0 \<and> waitGroup fr = 0) \<and>
      (inflight (pc fr) \<longrightarrow> entries fr \<noteq> [] \<and> \<not> IsDir (snd (hd (entries fr)))) \<and>
      firstErr fr = None \<and> gpc fr \<noteq> GErr \<and> (gpc fr \<noteq> GCall \<longrightarrow> returned (pc fr)) \<and>
      (\<forall>n e. pc fr = PRet n e \<longrightarrow>
         e = None \<and> n = leaves (sourceNode fr) \<and> entries fr = [] \<and> waitGroup fr = 0))"

definition tally :: "frame \<Rightarrow> call list \<Rightarrow> (string \<times> snode) list \<Rightarrow> bool" where
  "tally fr kids dn =
     (map args_of kids =
        map (\<lambda>e. (sourceDirectory fr @ [fst e], snd e, destinationDirectory fr @ [fst e])) (dirs dn) \<and>
      fileCount fr = length (files dn) + sum_list (map merged kids) \<and>
      waitGroup fr = sum_list (map alive kids))"

definition dstate :: "fs \<Rightarrow> fs \<Rightarrow> frame \<Rightarrow> (string \<times> snode) list \<Rightarrow> bool" where
  "dstate b f fr dn =
     ((early (pc fr) \<longrightarrow> \<not> is_file (f (destinationDirectory fr))) \<and>
      (pc fr \<noteq> PStat \<and> pc fr \<noteq> PMkdir \<longrightarrow> f (destinationDirectory fr) = Some DDir) \<and>
      (\<forall>n. n \<notin> fst ` set (dirs dn) \<longrightarrow>
         f (destinationDirectory fr @ [n]) =
           headval b (destinationDirectory fr) (entries fr) (pc fr) dn n \<and>
         (\<forall>m r. f (destinationDirectory fr @ n # m # r) = b (destinationDirectory fr @ n # m # r))))"

definition linv :: "fs \<Rightarrow> fs \<Rightarrow> frame \<Rightarrow> call list \<Rightarrow> (string \<times> snode) list \<Rightarrow> bool" where
  "linv b f fr kids dn =
     (static b fr \<and> control fr kids dn \<and> tally fr kids dn \<and> dstate b f fr dn)"

fun cinv :: "fs \<Rightarrow> fs \<Rightarrow> call \<Rightarrow> bool" where
  "cinv b f (Call fr kids) = ((\<exists>dn. linv b f fr kids dn) \<and> (\<forall>k \<in> set kids. cinv b f k))"

definition rinv :: "fs \<Rightarrow> path \<Rightarrow> snode \<Rightarrow> path \<Rightarrow> call \<times> glob \<Rightarrow> bool" where
  "rinv b sp T d cs =
     (case cs of (c, s) \<Rightarrow>
        cinv b (disk s) c \<and> args_of c = (sp, T, d) \<and> \<not> closed s \<and> \<not> panicked s \<and>
        (((pc (frame_of c) = PStat \<or> pc (frame_of c) = PMkdir) \<and> disk s = b) \<or>
         (anc (disk s) d \<and> (\<forall>p. \<not> prefix d p \<longrightarrow> disk s p = fst (MkdirAll b d) p))))"

subsection \<open>The work a call has left\<close>

text \<open>
  A bound on the number of steps an activation and the goroutines below it still
  take: every step that changes the state makes it smaller.
\<close>

fun cost :: "snode \<Rightarrow> nat" where
  "cost (SFile oe bs re) = 5"
| "cost (SDir le es) = 8 + sum_list (map (\<lambda>e. cost (snd e)) es)"

definition costs :: "(string \<times> snode) list \<Rightarrow> nat" where
  "costs es = sum_list (map (\<lambda>e. cost (snd e)) es)"

definition ownp :: "pc \<Rightarrow> (string \<times> snode) list \<Rightarrow> (string \<times> snode) list \<Rightarrow> nat" where
  "ownp p es ents =
     (case p of
        PStat \<Rightarrow> 4 + costs es
      | PMkdir \<Rightarrow> 3 + costs es
      | PReadDir \<Rightarrow> 2 + costs es
      | PLoop \<Rightarrow> 1 + costs ents
      | PCreate \<Rightarrow> 5 + costs (tl ents)
      | PTransfer \<Rightarrow> 4 + costs (tl ents)
      | PSend \<Rightarrow> 3 + costs (tl ents)
      | PIncr \<Rightarrow> 2 + costs (tl ents)
      | PRet n e \<Rightarrow> 0)"

definition own :: "frame \<Rightarrow> nat" where
  "own fr = ownp (pc fr) (es_of (sourceNode fr)) (entries fr)"

fun wrap :: "gpc \<Rightarrow> nat" where
  "wrap GCall = 3"
| "wrap GErr = 2"
| "wrap GDone = 1"
| "wrap GExit = 0"

fun work :: "call \<Rightarrow> nat" where
  "work (Call fr kids) = own fr + sum_list (map (\<lambda>k. work k + wrap (gpc (frame_of k))) kids)"

subsection \<open>The invariant of Copy\<close>

text \<open>
  \<open>vacant b d\<close>: the disk \<open>b\<close> holds nothing below \<open>d\<close>. \<open>copy_done\<close> is the state of
  \<open>Copy\<close> once its call has returned, and \<open>cpinv\<close> what holds at each point of \<open>Copy\<close>
  on a clean tree.
\<close>

definition vacant :: "fs \<Rightarrow> path \<Rightarrow> bool" where
  "vacant b d = (\<forall>r. r \<noteq> [] \<longrightarrow> b (d @ r) = None)"



subsection \<open>Inputs of the complete runs\<close>





definition call_schedule :: "nat list list" where
  "call_schedule =
     [[], [], [], [], [], [], [], [], [], [],
      [0], [0], [0], [0], [0], [0], [0], [0], [0], [0], [0], [0],
      [], []]"

section \<open>Counting\<close>

lemma CountFiles_listable:
  "listable T \<longrightarrow> CountFiles p T = (leaves T, None)"
  "list_all (\<lambda>e. IsDir (snd e) \<longrightarrow> listable (snd e)) es \<longrightarrow>
     CountFiles_loop p es c = (c + sum_list (map (\<lambda>e. leaves (snd e)) es), None)"
proof (induction p T and p es c rule: CountFiles_CountFiles_loop.induct)
  case (5 directory name entry entries count)
  show ?case
  proof (cases entry)
    case (SFile oe bs re)
    with 5 show ?thesis by simp
  next
    case (SDir le sub)
    with 5 show ?thesis by (simp del: listable.simps leaves.simps)
  qed
qed simp_all

text \<open>
  C5. For a directory tree in which every directory can be listed, \<open>CountFiles\<close>
  returns no error and the number of entries below the root that are not
  directories, however deep they lie.
\<close>

theorem CountFiles_counts_leaves:
  assumes "listable T"
  shows "CountFiles p T = (leaves T, None)"
  using assms CountFiles_listable(1) by blast

theorem CountFiles_counts_leaves_witness:
  "listable example_tree \<and> CountFiles [''src''] example_tree = (2, None)"
proof -
  have l: "listable example_tree" by (simp add: example_tree_def)
  from CountFiles_counts_leaves [OF l, of "[''src'']"]
  show ?thesis using l by (simp add: example_tree_def)
qed

lemma CountFiles_error_zero:
  "snd (CountFiles p T) \<noteq> None \<longrightarrow> fst (CountFiles p T) = 0"
  "snd (CountFiles_loop p es c) \<noteq> None \<longrightarrow> fst (CountFiles_loop p es c) = 0"
proof (induction p T and p es c rule: CountFiles_CountFiles_loop.induct)
  case (5 directory name entry entries count)
  then show ?case by (auto split: prod.splits option.splits)
qed simp_all

text \<open>
  C10. Whenever \<open>CountFiles\<close> returns an error, from listing the directory itself or
  from counting a subdirectory, the count it returns with it is 0.
\<close>

theorem CountFiles_error_count_zero:
  assumes "CountFiles p T = (n, Some err)"
  shows "n = 0"
  using assms CountFiles_error_zero(1) [of p T] by simp

theorem CountFiles_error_count_zero_witness:
  "CountFiles [''src''] unlistable_tree = (0, Some (PathError ''open'' [''src'', ''y''] EACCES))"
proof -
  obtain n err where r: "CountFiles [''src''] unlistable_tree = (n, Some err)"
    by (simp add: unlistable_tree_def)
  from CountFiles_error_count_zero [OF r] r
  show ?thesis by (simp add: unlistable_tree_def)
qed

section \<open>The transfer buffer\<close>

lemma bufSize_pos: "0 < sint (bufSize cd)"
  by (simp add: bufSize_def word_sless_alt)


lemma make_buf_allocates:
  "allocates cd \<Longrightarrow> make_buf (bufSize cd) = Some (replicate (nat (sint (bufSize cd))) 0)"
  using bufSize_pos [of cd] by (simp add: make_buf_def allocates_def)


lemma allocates_default: "allocates \<lparr>BufferSize = 0\<rparr>"
  by (simp add: allocates_def bufSize_def maxAlloc_def word_sless_alt)

lemma write_at_write_at:
  "write_at (off + length a) b (write_at off a old) = write_at off (a @ b) old"
proof -
  define pre where "pre = take off old @ replicate (off - length old) 0"
  have l: "length pre = off" by (simp add: pre_def)
  have w: "write_at off a old = pre @ a @ drop (off + length a) old"
    by (simp add: write_at_def pre_def)
  have "write_at (off + length a) b (pre @ a @ drop (off + length a) old) =
      pre @ a @ b @ drop (off + length a + length b) old"
    by (simp add: write_at_def l add.commute add.left_commute)
  also have "\<dots> = write_at off (a @ b) old"
    by (simp add: write_at_def pre_def add.assoc)
  finally show ?thesis by (simp only: w)
qed

lemma Write_Write:
  "Write (Write d p off a) p (off + length a) b = Write d p off (a @ b)"
  by (simp add: Write_def write_at_write_at split: option.split dnode.split)

lemma copy_chunks_reads:
  "0 < n \<Longrightarrow> bs \<noteq> [] \<Longrightarrow> copy_chunks d p off (reads n bs) = Write d p off bs"
proof (induction n bs arbitrary: d off rule: reads.induct)
  case (1 n bs)
  show ?case
  proof (cases "drop n bs = []")
    case True
    with "1.prems" show ?thesis by (simp add: reads.simps [of n bs] reads.simps [of n "[]"])
  next
    case False
    with "1.prems" "1.IH" [of "Write d p off (take n bs)" "off + length (take n bs)"]
    have "copy_chunks d p off (reads n bs) =
        Write (Write d p off (take n bs)) p (off + length (take n bs)) (drop n bs)"
      by (simp add: reads.simps [of n bs])
    then show ?thesis by (simp only: Write_Write append_take_drop_id)
  qed
qed


lemma concat_reads: "0 < n \<Longrightarrow> concat (reads n bs) = bs"
proof (induction n bs rule: reads.induct)
  case (1 n bs)
  then show ?case
    by (cases "bs = []") (simp_all add: reads.simps [of n bs] reads.simps [of n "[]"])
qed

lemma CopyBuffer_whole:
  assumes "buf \<noteq> []"
  shows "CopyBuffer d dst src file buf =
     Some (case Read src file of (bs, err) \<Rightarrow> (transferred d dst bs, err))"
proof -
  obtain bs err where r: "Read src file = (bs, err)" by (cases "Read src file")
  show ?thesis
  proof (cases "bs = []")
    case True
    with assms r show ?thesis
      by (auto simp: CopyBuffer_def transferred_def reads.simps [of _ "[]"]
          split: option.split dnode.split)
  next
    case False
    with assms r copy_chunks_reads [of "length buf" bs d dst 0] show ?thesis
      by (simp add: CopyBuffer_def Write_def write_at_def transferred_def
          split: option.split dnode.split)
  qed
qed

lemma CopyBuffer_bufSize:
  "CopyBuffer d dst src file (replicate (nat (sint (bufSize cd))) 0) =
     Some (case Read src file of (bs, err) \<Rightarrow> (transferred d dst bs, err))"
  using bufSize_pos [of cd] by (intro CopyBuffer_whole) simp

text \<open>The step of lines 107 to 115 when the buffer can be allocated.\<close>

lemma step_own_PTransfer:
  assumes "allocates cd" and "pc fr = PTransfer" and "entries fr = (name, entry) # rest"
  shows "step_own cd fr s =
     (case Read (sourceDirectory fr @ [name]) entry of
        (bs, Some err) \<Rightarrow>
          (fr\<lparr>pc := PRet (fileCount fr) (Some err)\<rparr>, [],
           s\<lparr>disk := transferred (disk s) (destinationDirectory fr @ [name]) bs\<rparr>)
      | (bs, None) \<Rightarrow>
          (fr\<lparr>pc := PSend\<rparr>, [],
           s\<lparr>disk := transferred (disk s) (destinationDirectory fr @ [name]) bs\<rparr>))"
  using assms(2,3)
  by (simp add: step_own_def make_buf_allocates [OF assms(1)] CopyBuffer_bufSize
      split: prod.split option.split)



section \<open>Concrete runs\<close>

lemmas run_defs = CopyFilesAndDirectory_def spawn_def open_world_def root_only_def
  example_tree_def nested_tree_def step_own_def Stat_def MkdirAll_def Create_def
  make_buf_allocates allocates_default CopyBuffer_bufSize transferred_def step_merge_def
  Copy_def start_def
  Copy_step_def step_below_def
  CopyMultipleSources_def CopyMultipleSources_step_def step_collect_def

text \<open>
  C2. The claim: when a file copy fails at some level, the subdirectory tasks
  already dispatched are awaited before the call returns, so that the returned count
  includes their progress. The code returns from inside the loop (lines 96, 103,
  118) without reaching \<open>waitGroup.Wait()\<close>. In the first run below the call on
  \<open>example_tree\<close> has returned \<open>(0, err)\<close> while the wait group still counts the task
  for \<open>a\<close>, which has not returned and has copied nothing; in the second, the same
  run continued, that task copies \<open>a/f\<close> after the return, and the returned count
  stays 0.
\<close>

theorem early_return_leaves_subtask_running:
  assumes "allocates cd"
  shows "(case CopyFilesAndDirectory cd [[], [], [], [], []] [''src''] example_tree [''dst'']
           (open_world root_only) of
      (c, s) \<Rightarrow>
        result c = Some (0, Some (PathError ''open'' [''src'', ''b''] EACCES)) \<and>
        waitGroup (frame_of c) = 1 \<and> map result (kids_of c) = [None] \<and>
        disk s [''dst'', ''a'', ''f''] = None) \<and>
   (case CopyFilesAndDirectory cd
           ([[], [], [], [], []] @ [[0], [0], [0], [0], [0], [0], [0], [0], [0]])
           [''src''] example_tree [''dst''] (open_world root_only) of
      (c, s) \<Rightarrow>
        result c = Some (0, Some (PathError ''open'' [''src'', ''b''] EACCES)) \<and>
        map result (kids_of c) = [Some (1, None)] \<and>
        disk s [''dst'', ''a'', ''f''] = Some (DFile [1, 2]) \<and> bar s = 1)"
  using assms by (simp add: run_defs)

theorem early_return_leaves_subtask_running_witness:
  "allocates \<lparr>BufferSize = 0\<rparr> \<and>
   ((case CopyFilesAndDirectory \<lparr>BufferSize = 0\<rparr> [[], [], [], [], []] [''src''] example_tree [''dst'']
           (open_world root_only) of
      (c, s) \<Rightarrow>
        result c = Some (0, Some (PathError ''open'' [''src'', ''b''] EACCES)) \<and>
        waitGroup (frame_of c) = 1 \<and> map result (kids_of c) = [None] \<and>
        disk s [''dst'', ''a'', ''f''] = None) \<and>
   (case CopyFilesAndDirectory \<lparr>BufferSize = 0\<rparr>
           ([[], [], [], [], []] @ [[0], [0], [0], [0], [0], [0], [0], [0], [0]])
           [''src''] example_tree [''dst''] (open_world root_only) of
      (c, s) \<Rightarrow>
        result c = Some (0, Some (PathError ''open'' [''src'', ''b''] EACCES)) \<and>
        map result (kids_of c) = [Some (1, None)] \<and>
        disk s [''dst'', ''a'', ''f''] = Some (DFile [1, 2]) \<and> bar s = 1))"
  by (rule conjI [OF allocates_default early_return_leaves_subtask_running [OF allocates_default]])


text \<open>
  C4. The claim: under every interleaving the returned count is the number of
  successful file copies in the subtree. In both runs below on \<open>nested_tree\<close> the
  outer call waits for its one subtask and returns through line 131, and in both
  exactly the file \<open>a/c/f\<close> is copied. The task for \<open>a\<close> returns early on \<open>a/d\<close>
  without waiting for the task for \<open>a/c\<close>: the outer call returns 0 when \<open>a/c\<close> runs
  late and 1 when it runs first.
\<close>

theorem count_depends_on_interleaving:
  assumes "allocates cd"
  shows "(case CopyFilesAndDirectory cd
           ([[], [], [], []] @ [[0], [0], [0], [0], [0], [0], [0], [0]] @ [[]] @
            [[0, 0], [0, 0], [0, 0], [0, 0], [0, 0], [0, 0], [0, 0], [0, 0], [0, 0]])
           [''src''] nested_tree [''dst''] (open_world root_only) of
      (c, s) \<Rightarrow>
        result c = Some (0, Some (PathError ''open'' [''src'', ''a'', ''d''] EACCES)) \<and>
        disk s [''dst'', ''a'', ''c'', ''f''] = Some (DFile [1, 2]) \<and> bar s = 1) \<and>
   (case CopyFilesAndDirectory cd
           ([[], [], [], []] @ [[0], [0], [0], [0]] @ 
            [[0, 0], [0, 0], [0, 0], [0, 0], [0, 0], [0, 0], [0, 0], [0, 0], [0, 0]] @
            [[0, 0], [0, 0]] @ [[0], [0], [0], [0]] @ [[]])
           [''src''] nested_tree [''dst''] (open_world root_only) of
      (c, s) \<Rightarrow>
        result c = Some (1, Some (PathError ''open'' [''src'', ''a'', ''d''] EACCES)) \<and>
        disk s [''dst'', ''a'', ''c'', ''f''] = Some (DFile [1, 2]) \<and> bar s = 1)"
  using assms by (simp add: run_defs)

theorem count_depends_on_interleaving_witness:
  "allocates \<lparr>BufferSize = 0\<rparr> \<and>
   ((case CopyFilesAndDirectory \<lparr>BufferSize = 0\<rparr>
           ([[], [], [], []] @ [[0], [0], [0], [0], [0], [0], [0], [0]] @ [[]] @
            [[0, 0], [0, 0], [0, 0], [0, 0], [0, 0], [0, 0], [0, 0], [0, 0], [0, 0]])
           [''src''] nested_tree [''dst''] (open_world root_only) of
      (c, s) \<Rightarrow>
        result c = Some (0, Some (PathError ''open'' [''src'', ''a'', ''d''] EACCES)) \<and>
        disk s [''dst'', ''a'', ''c'', ''f''] = Some (DFile [1, 2]) \<and> bar s = 1) \<and>
   (case CopyFilesAndDirectory \<lparr>BufferSize = 0\<rparr>
           ([[], [], [], []] @ [[0], [0], [0], [0]] @ 
            [[0, 0], [0, 0], [0, 0], [0, 0], [0, 0], [0, 0], [0, 0], [0, 0], [0, 0]] @
            [[0, 0], [0, 0]] @ [[0], [0], [0], [0]] @ [[]])
           [''src''] nested_tree [''dst''] (open_world root_only) of
      (c, s) \<Rightarrow>
        result c = Some (1, Some (PathError ''open'' [''src'', ''a'', ''d''] EACCES)) \<and>
        disk s [''dst'', ''a'', ''c'', ''f''] = Some (DFile [1, 2]) \<and> bar s = 1))"
  by (rule conjI [OF allocates_default count_depends_on_interleaving [OF allocates_default]])


text \<open>
  C3. The claim: no send on the progress channel follows its close. On
  \<open>example_tree\<close> the call of \<open>CopyFilesAndDirectory\<close> returns early, \<open>Copy\<close> closes the
  channel (line 160), and the task for \<open>a\<close>, still running, then sends on the closed
  channel (line 122): the run panics, before \<open>Copy\<close> has returned in the first run
  and after it in the second. The third run is the same for \<open>CopyMultipleSources\<close>
  (close at line 228).
\<close>

theorem send_on_closed_channel:
  assumes "allocates cd"
  shows "panicked (world (Copy cd ([[], [], [], [], [], [], []] @ [[0], [0], [0], [0], [0], [0], [0], [0]])
      [''src''] example_tree [''dst''] root_only)) \<and>
   opc (Copy cd ([[], [], [], [], [], [], []] @ [[0], [0], [0], [0], [0], [0], [0], [0]])
      [''src''] example_tree [''dst''] root_only) = OClosed \<and>
   panicked (world (Copy cd ([[], [], [], [], [], [], [], []] @ [[0], [0], [0], [0], [0], [0], [0], [0]])
      [''src''] example_tree [''dst''] root_only)) \<and>
   opc (Copy cd ([[], [], [], [], [], [], [], []] @ [[0], [0], [0], [0], [0], [0], [0], [0]])
      [''src''] example_tree [''dst''] root_only) = ORet 0 (Some (PathError ''open'' [''src'', ''b''] EACCES)) \<and>
   panicked (world (CopyMultipleSources cd
      ([[], [], [], []] @ [[0], [0], [0], [0], [0], [0], [0], [0]] @ [[], []] @
       [[0, 0], [0, 0], [0, 0], [0, 0], [0, 0], [0, 0], [0, 0], [0, 0]])
      [([''src''], example_tree)] [''dst''] root_only))"
  using assms by (simp add: run_defs)

theorem send_on_closed_channel_witness:
  "allocates \<lparr>BufferSize = 0\<rparr> \<and>
   (panicked (world (Copy \<lparr>BufferSize = 0\<rparr> ([[], [], [], [], [], [], []] @ [[0], [0], [0], [0], [0], [0], [0], [0]])
      [''src''] example_tree [''dst''] root_only)) \<and>
   opc (Copy \<lparr>BufferSize = 0\<rparr> ([[], [], [], [], [], [], []] @ [[0], [0], [0], [0], [0], [0], [0], [0]])
      [''src''] example_tree [''dst''] root_only) = OClosed \<and>
   panicked (world (Copy \<lparr>BufferSize = 0\<rparr> ([[], [], [], [], [], [], [], []] @ [[0], [0], [0], [0], [0], [0], [0], [0]])
      [''src''] example_tree [''dst''] root_only)) \<and>
   opc (Copy \<lparr>BufferSize = 0\<rparr> ([[], [], [], [], [], [], [], []] @ [[0], [0], [0], [0], [0], [0], [0], [0]])
      [''src''] example_tree [''dst''] root_only) = ORet 0 (Some (PathError ''open'' [''src'', ''b''] EACCES)) \<and>
   panicked (world (CopyMultipleSources \<lparr>BufferSize = 0\<rparr>
      ([[], [], [], []] @ [[0], [0], [0], [0], [0], [0], [0], [0]] @ [[], []] @
       [[0, 0], [0, 0], [0, 0], [0, 0], [0, 0], [0, 0], [0, 0], [0, 0]])
      [([''src''], example_tree)] [''dst''] root_only)))"
  by (rule conjI [OF allocates_default send_on_closed_channel [OF allocates_default]])


section \<open>A counting failure in CopyMultipleSources\<close>

lemma count_sources_error:
  "count_sources sources k = (n, Some e) \<Longrightarrow>
   n = 0 \<and> (\<exists>x \<in> set sources. \<exists>c. CountFiles (fst x) (snd x) = (c, Some e))"
proof (induction sources arbitrary: k)
  case Nil
  then show ?case by simp
next
  case (Cons a sources)
  obtain s T where a: "a = (s, T)" by (cases a)
  obtain c r where cf: "CountFiles s T = (c, r)" by (cases "CountFiles s T")
  show ?case
  proof (cases r)
    case None
    with Cons a cf show ?thesis by auto
  next
    case (Some e')
    with Cons.prems a cf show ?thesis by auto
  qed
qed

lemma count_sources_fails:
  "(source, node) \<in> set sources \<Longrightarrow> CountFiles source node = (n, Some err) \<Longrightarrow>
   \<exists>e. count_sources sources k = (0, Some e)"
proof (induction sources arbitrary: k)
  case Nil
  then show ?case by simp
next
  case (Cons a sources)
  obtain s T where a: "a = (s, T)" by (cases a)
  obtain c r where cf: "CountFiles s T = (c, r)" by (cases "CountFiles s T")
  show ?case
  proof (cases r)
    case None
    with Cons a cf show ?thesis by auto
  next
    case (Some e')
    with a cf show ?thesis by simp
  qed
qed

lemma CopyMultipleSources_step_count_failed:
  assumes "count_sources sources 0 = (0, Some e)"
    and "calls st = []" and "opc st = OCount \<or> opc st = ORet 0 (Some e)"
    and "\<not> panicked (world st)"
  shows "calls (CopyMultipleSources_step cd sources destination t st) = [] \<and>
         world (CopyMultipleSources_step cd sources destination t st) = world st \<and>
         opc (CopyMultipleSources_step cd sources destination t st) =
           (if t = [] then ORet 0 (Some e) else opc st)"
proof (cases t)
  case Nil
  with assms show ?thesis by (auto simp: CopyMultipleSources_step_def)
next
  case (Cons i t')
  with assms show ?thesis by (simp add: CopyMultipleSources_step_def)
qed

lemma run_CopyMultipleSources_count_failed:
  assumes "count_sources sources 0 = (0, Some e)"
    and "calls st = []" and "opc st = OCount \<or> opc st = ORet 0 (Some e)"
    and "\<not> panicked (world st)"
  shows "calls (run_CopyMultipleSources cd sources destination ts st) = [] \<and>
         world (run_CopyMultipleSources cd sources destination ts st) = world st \<and>
         opc (run_CopyMultipleSources cd sources destination ts st) =
           (if [] \<in> set ts then ORet 0 (Some e) else opc st)"
  using assms(2,3,4)
proof (induction ts arbitrary: st)
  case Nil
  then show ?case by simp
next
  case (Cons t ts)
  let ?st' = "CopyMultipleSources_step cd sources destination t st"
  note s = CopyMultipleSources_step_count_failed [OF assms(1) Cons.prems, of cd destination t]
  then have o: "opc ?st' = OCount \<or> opc ?st' = ORet 0 (Some e)"
    using Cons.prems by auto
  from s Cons.prems have p: "\<not> panicked (world ?st')" by simp
  from s have c: "calls ?st' = []" by simp
  from Cons.IH [OF c o p] s show ?case by auto
qed

text \<open>
  C7. If counting one of the sources fails, then under every schedule
  \<open>CopyMultipleSources\<close> starts no copy task and leaves the disk as it was (the
  destination directory is not created), and once its thread has moved it has
  returned 0 with the error of a source whose count failed. The counting loop is the
  thread's first step, before anything else.
\<close>

theorem counting_failure_preempts_copying:
  assumes "(source, node) \<in> set sources" and "CountFiles source node = (n, Some err)"
  shows "\<exists>e. (\<exists>x \<in> set sources. \<exists>c. CountFiles (fst x) (snd x) = (c, Some e)) \<and>
           (\<forall>ts. calls (CopyMultipleSources cd ts sources destination d) = [] \<and>
                 disk (world (CopyMultipleSources cd ts sources destination d)) = d \<and>
                 opc (CopyMultipleSources cd ts sources destination d) =
                   (if [] \<in> set ts then ORet 0 (Some e) else OCount))"
proof -
  from count_sources_fails [OF assms] obtain e where e: "count_sources sources 0 = (0, Some e)"
    by blast
  from count_sources_error [OF e]
  have src: "\<exists>x \<in> set sources. \<exists>c. CountFiles (fst x) (snd x) = (c, Some e)" by simp
  have "calls (start d) = []" "opc (start d) = OCount \<or> opc (start d) = ORet 0 (Some e)"
    "\<not> panicked (world (start d))"
    by (simp_all add: start_def)
  from run_CopyMultipleSources_count_failed [OF e this]
  have "\<forall>ts. calls (CopyMultipleSources cd ts sources destination d) = [] \<and>
             disk (world (CopyMultipleSources cd ts sources destination d)) = d \<and>
             opc (CopyMultipleSources cd ts sources destination d) =
               (if [] \<in> set ts then ORet 0 (Some e) else OCount)"
    by (simp add: CopyMultipleSources_def start_def)
  with src show ?thesis by blast
qed

theorem counting_failure_preempts_copying_witness:
  "calls (CopyMultipleSources \<lparr>BufferSize = 0\<rparr> [[1], [], [0], []] two_sources [''dst''] (\<lambda>p. None)) = [] \<and>
   disk (world (CopyMultipleSources \<lparr>BufferSize = 0\<rparr> [[1], [], [0], []] two_sources [''dst''] (\<lambda>p. None))) [''dst''] = None \<and>
   opc (CopyMultipleSources \<lparr>BufferSize = 0\<rparr> [[1], [], [0], []] two_sources [''dst''] (\<lambda>p. None)) =
     ORet 0 (Some (PathError ''open'' [''B'', ''y''] EACCES))"
proof -
  have m: "([''B''], unlistable_tree) \<in> set two_sources" by (simp add: two_sources_def)
  have c: "CountFiles [''B''] unlistable_tree = (0, Some (PathError ''open'' [''B'', ''y''] EACCES))"
    by (simp add: unlistable_tree_def)
  from counting_failure_preempts_copying [OF m c, of "\<lparr>BufferSize = 0\<rparr>" "[''dst'']" "\<lambda>p. None"]
  obtain e where e: "\<exists>x \<in> set two_sources. \<exists>c. CountFiles (fst x) (snd x) = (c, Some e)"
    and r: "\<forall>ts. calls (CopyMultipleSources \<lparr>BufferSize = 0\<rparr> ts two_sources [''dst''] (\<lambda>p. None)) = [] \<and>
                 disk (world (CopyMultipleSources \<lparr>BufferSize = 0\<rparr> ts two_sources [''dst''] (\<lambda>p. None))) = (\<lambda>p. None) \<and>
                 opc (CopyMultipleSources \<lparr>BufferSize = 0\<rparr> ts two_sources [''dst''] (\<lambda>p. None)) =
                   (if [] \<in> set ts then ORet 0 (Some e) else OCount)"
    by blast
  from e have "e = PathError ''open'' [''B'', ''y''] EACCES"
    by (auto simp: two_sources_def unlistable_tree_def)
  with r [rule_format, of "[[1], [], [0], []]"] show ?thesis by simp
qed

section \<open>The result of CopyMultipleSources\<close>

lemma step_own_keeps:
  "step_own cd fr s = (fr', new, s') \<Longrightarrow>
   gpc fr' = gpc fr \<and> sourceDirectory fr' = sourceDirectory fr \<and> sourceNode fr' = sourceNode fr \<and>
   destinationDirectory fr' = destinationDirectory fr \<and>
   (\<forall>count err. pc fr = PRet count err \<longrightarrow> pc fr' = PRet count err)"
  by (cases "pc fr")
    (auto simp: step_own_def split: if_splits prod.splits option.splits list.splits)

lemma step_merge_keeps:
  "step_merge par kid = (par', kid') \<Longrightarrow>
   gpc par' = gpc par \<and> sourceDirectory par' = sourceDirectory par \<and> sourceNode par' = sourceNode par \<and>
   destinationDirectory par' = destinationDirectory par \<and> pc par' = pc par"
  by (cases "pc kid"; cases "gpc kid") (auto simp: step_merge_def)

lemma step_call_keeps:
  assumes "step_call cd t c s = (c', s')"
  shows "gpc (frame_of c') = gpc (frame_of c) \<and> src_of c' = src_of c \<and>
         destinationDirectory (frame_of c') = destinationDirectory (frame_of c) \<and>
         (\<forall>r. result c = Some r \<longrightarrow> result c' = Some r)"
proof (cases c)
  case (Call fr kids)
  show ?thesis
  proof (cases t)
    case Nil
    obtain fr' new s'' where so: "step_own cd fr s = (fr', new, s'')"
      by (cases "step_own cd fr s")
    with assms Call Nil have c': "c' = Call fr' (kids @ new)" by simp
    from step_own_keeps [OF so] show ?thesis
      unfolding c' Call by (cases "pc fr") (auto simp: src_of_def)
  next
    case (Cons i t')
    show ?thesis
    proof (cases "i < length kids")
      case False
      with assms Call Cons show ?thesis by simp
    next
      case True
      show ?thesis
      proof (cases "t' = [] \<and> returned (pc (frame_of (kids ! i)))")
        case True
        obtain par' kid' where sm: "step_merge fr (frame_of (kids ! i)) = (par', kid')"
          by (cases "step_merge fr (frame_of (kids ! i))")
        with assms Call Cons True \<open>i < length kids\<close>
        have c': "c' = Call par' (kids[i := Call kid' (kids_of (kids ! i))])" by auto
        from step_merge_keeps [OF sm] show ?thesis
          unfolding c' Call by (cases "pc fr") (auto simp: src_of_def)
      next
        case False
        obtain k' s'' where sk: "step_call cd t' (kids ! i) s = (k', s'')"
          by (cases "step_call cd t' (kids ! i) s")
        with assms Call Cons False \<open>i < length kids\<close>
        have c': "c' = Call fr (kids[i := k'])" by auto
        show ?thesis unfolding c' Call by (simp add: src_of_def)
      qed
    qed
  qed
qed

lemma step_call_measures:
  assumes "step_call cd t c s = (c', s')" and "sane c"
  shows "collected c' = collected c \<and> reported c' = reported c \<and> alive c' = alive c \<and>
         sane c' \<and> src_of c' = src_of c"
proof -
  note k = step_call_keeps [OF assms(1)]
  show ?thesis
  proof (cases "result c")
    case None
    with assms(2) k have g: "gpc (frame_of c') = GCall" "gpc (frame_of c) = GCall"
      by (auto simp: sane_def)
    then show ?thesis using k None
      by (auto simp: collected_def reported_def alive_def sane_def split: option.splits)
  next
    case (Some r)
    with k have "result c' = Some r" by simp
    with Some k assms(2) show ?thesis
      by (simp add: collected_def reported_def alive_def sane_def)
  qed
qed

lemma sum_list_map_update:
  "i < length xs \<Longrightarrow>
   sum_list (map f (xs[i := y])) + f (xs ! i) = sum_list (map f xs) + (f y :: nat)"
proof (induction xs arbitrary: i)
  case Nil
  then show ?case by simp
next
  case (Cons x xs)
  then show ?case by (cases i) (auto simp: algebra_simps)
qed

lemma set_concat_map_update:
  "i < length xs \<Longrightarrow> g (xs ! i) = [] \<Longrightarrow>
   set (concat (map g (xs[i := y]))) = set (concat (map g xs)) \<union> set (g y)"
proof (induction xs arbitrary: i)
  case Nil
  then show ?case by simp
next
  case (Cons x xs)
  then show ?case by (cases i) auto
qed

lemma map_update_same:
  "i < length xs \<Longrightarrow> f y = f (xs ! i) \<Longrightarrow> map f (xs[i := y]) = map f xs"
  by (metis list_update_id map_update)

lemma list_all_update:
  "list_all P xs \<Longrightarrow> P y \<Longrightarrow> list_all P (xs[i := y])"
  by (metis list_all_iff set_update_subset_insert subset_code(1) insert_iff)

lemma sums_step_call:
  assumes "sums st" and "i < length (calls st)"
    and "step_call cd t (calls st ! i) (world st) = (c', w')"
  shows "sums (st\<lparr>calls := (calls st)[i := c'], world := w'\<rparr>) \<and>
         map src_of ((calls st)[i := c']) = map src_of (calls st)"
proof -
  from assms(1,2) have "sane (calls st ! i)" by (simp add: sums_def list_all_length)
  note m = step_call_measures [OF assms(3) this]
  from m assms(2) have
    "map collected ((calls st)[i := c']) = map collected (calls st)"
    "map reported ((calls st)[i := c']) = map reported (calls st)"
    "map alive ((calls st)[i := c']) = map alive (calls st)"
    "map src_of ((calls st)[i := c']) = map src_of (calls st)"
    by (simp_all add: map_update_same)
  moreover from m assms(1) have "list_all sane ((calls st)[i := c'])"
    by (simp add: sums_def list_all_update)
  ultimately show ?thesis using assms(1) by (simp add: sums_def)
qed

lemma sums_step_collect:
  assumes "sums st" and "i < length (calls st)"
  shows "sums (step_collect i st) \<and>
         map src_of (calls (step_collect i st)) = map src_of (calls st) \<and>
         opc (step_collect i st) = opc st \<and> pending (step_collect i st) = pending st"
proof (cases "calls st ! i")
  case (Call fr kids)
  from assms have sane: "sane (Call fr kids)"
    by (simp add: sums_def list_all_length flip: Call)
  show ?thesis
  proof (cases "result (Call fr kids)")
    case None
    with Call assms show ?thesis by (simp add: step_collect_def)
  next
    case (Some r)
    obtain count err where r: "r = (count, err)" by (cases r)
    let ?upd = "\<lambda>g. (calls st)[i := Call (fr\<lparr>gpc := g\<rparr>) kids]"
    have res: "\<And>g. result (Call (fr\<lparr>gpc := g\<rparr>) kids) = Some (count, err)"
      using Some r by simp
    have src: "\<And>g. map src_of (?upd g) = map src_of (calls st)"
      using assms(2) Call by (simp add: map_update_same src_of_def)
    have sl: "\<And>f g. sum_list (map f (?upd g)) + f (Call fr kids)
                 = sum_list (map f (calls st)) + (f (Call (fr\<lparr>gpc := g\<rparr>) kids) :: nat)"
      using sum_list_map_update [OF assms(2)] Call by simp
    show ?thesis
    proof (cases "gpc fr")
      case GCall
      let ?g = "if err \<noteq> None then GErr else GDone"
      have st': "step_collect i st = st\<lparr>countChan := countChan st @ [count], calls := ?upd ?g\<rparr>"
        using Call Some r GCall by (simp add: step_collect_def)
      have c0: "collected (Call fr kids) = 0" "alive (Call fr kids) = 1"
        "reported (Call fr kids) = []"
        using GCall by (auto simp: collected_def alive_def reported_def split: option.splits)
      have c1: "collected (Call (fr\<lparr>gpc := ?g\<rparr>) kids) = count"
        "alive (Call (fr\<lparr>gpc := ?g\<rparr>) kids) = 1"
        "reported (Call (fr\<lparr>gpc := ?g\<rparr>) kids) = []"
        "sane (Call (fr\<lparr>gpc := ?g\<rparr>) kids)"
        using Some r by (auto simp: collected_def alive_def reported_def sane_def split: option.splits)
      have "set (concat (map reported (?upd ?g))) = set (concat (map reported (calls st)))"
        using set_concat_map_update [OF assms(2), of reported] Call c0 c1 by simp
      moreover have "sum_list (map collected (?upd ?g)) = sum_list (map collected (calls st)) + count"
        using sl [of collected ?g] c0 c1 by simp
      moreover have "sum_list (map alive (?upd ?g)) = sum_list (map alive (calls st))"
        using sl [of alive ?g] c0 c1 by simp
      moreover have "list_all sane (?upd ?g)"
        using assms(1) c1 by (simp add: sums_def list_all_update)
      ultimately show ?thesis using assms(1) src [of ?g] unfolding st'
        by (simp add: sums_def)
    next
      case GErr
      from sane GErr obtain e where e: "err = Some e"
        using Some r by (auto simp: sane_def)
      have st': "step_collect i st = st\<lparr>errChan := errChan st @ [e], calls := ?upd GDone\<rparr>"
        using Call Some r GErr e by (simp add: step_collect_def)
      have c0: "collected (Call fr kids) = count" "alive (Call fr kids) = 1"
        "reported (Call fr kids) = []"
        using GErr Some r e by (auto simp: collected_def alive_def reported_def)
      have c1: "collected (Call (fr\<lparr>gpc := GDone\<rparr>) kids) = count"
        "alive (Call (fr\<lparr>gpc := GDone\<rparr>) kids) = 1"
        "reported (Call (fr\<lparr>gpc := GDone\<rparr>) kids) = [e]"
        "sane (Call (fr\<lparr>gpc := GDone\<rparr>) kids)"
        using Some r e by (auto simp: collected_def alive_def reported_def sane_def)
      have "set (concat (map reported (?upd GDone))) = set (concat (map reported (calls st))) \<union> {e}"
        using set_concat_map_update [OF assms(2), of reported] Call c0 c1 by simp
      moreover have "sum_list (map collected (?upd GDone)) = sum_list (map collected (calls st))"
        using sl [of collected GDone] c0 c1 by simp
      moreover have "sum_list (map alive (?upd GDone)) = sum_list (map alive (calls st))"
        using sl [of alive GDone] c0 c1 by simp
      moreover have "list_all sane (?upd GDone)"
        using assms(1) c1 by (simp add: sums_def list_all_update)
      ultimately show ?thesis using assms(1) src [of GDone] unfolding st'
        by (simp add: sums_def)
    next
      case GDone
      have st': "step_collect i st = st\<lparr>owg := owg st - 1, calls := ?upd GExit\<rparr>"
        using Call Some r GDone by (simp add: step_collect_def)
      have c0: "collected (Call fr kids) = count" "alive (Call fr kids) = 1"
        using GDone Some r by (auto simp: collected_def alive_def)
      have c1: "collected (Call (fr\<lparr>gpc := GExit\<rparr>) kids) = count"
        "alive (Call (fr\<lparr>gpc := GExit\<rparr>) kids) = 0"
        "reported (Call (fr\<lparr>gpc := GExit\<rparr>) kids) = reported (Call fr kids)"
        "sane (Call (fr\<lparr>gpc := GExit\<rparr>) kids)"
        using Some r GDone by (auto simp: collected_def alive_def reported_def sane_def split: option.splits)
      have "map reported (?upd GExit) = map reported (calls st)"
        using assms(2) Call c1 by (simp add: map_update_same)
      moreover have "sum_list (map collected (?upd GExit)) = sum_list (map collected (calls st))"
        using sl [of collected GExit] c0 c1 by simp
      moreover have "sum_list (map alive (?upd GExit)) + 1 = sum_list (map alive (calls st))"
        using sl [of alive GExit] c0 c1 by simp
      moreover have "list_all sane (?upd GExit)"
        using assms(1) c1 by (simp add: sums_def list_all_update)
      ultimately show ?thesis using assms(1) src [of GExit] unfolding st'
        by (auto simp: sums_def)
    next
      case GExit
      with Call Some r assms show ?thesis by (simp add: step_collect_def)
    qed
  qed
qed

lemma sums_all_exited:
  assumes "sums st" and "owg st = 0" and "c \<in> set (calls st)"
  shows "gpc (frame_of c) = GExit \<and> result c \<noteq> None"
proof -
  from assms(1,2) have "sum_list (map alive (calls st)) = 0" by (simp add: sums_def)
  with assms(3) have "alive c = 0" by auto
  then have g: "gpc (frame_of c) = GExit" by (simp add: alive_def split: if_splits)
  from assms(1,3) have "sane c" by (simp add: sums_def list_all_iff)
  with g show ?thesis by (simp add: sane_def)
qed

lemma step_collect_exited:
  assumes "sums st" and "owg st = 0" and "i < length (calls st)"
  shows "step_collect i st = st"
proof (cases "calls st ! i")
  case (Call fr kids)
  from assms(3) have "calls st ! i \<in> set (calls st)" by simp
  from sums_all_exited [OF assms(1,2) this] Call show ?thesis
    by (auto simp: step_collect_def)
qed

lemma sums_spawn:
  assumes "sums st"
  shows "sums (st\<lparr>owg := owg st + 1, calls := calls st @ [spawn source node destination],
                   pending := rest\<rparr>)"
proof -
  have "collected (spawn source node destination) = 0"
    "reported (spawn source node destination) = []"
    "alive (spawn source node destination) = 1"
    "sane (spawn source node destination)"
    by (simp_all add: spawn_def collected_def reported_def alive_def sane_def)
  with assms show ?thesis by (simp add: sums_def)
qed

lemma idle_sums: "idle st \<Longrightarrow> sums (st\<lparr>opc := x, pending := y\<rparr>)"
  "idle st \<Longrightarrow> sums (st\<lparr>opc := x, pending := y, world := w\<rparr>)"
  by (simp_all add: idle_def sums_def)

lemma minv_main_step:
  assumes "minv sources st" and "\<not> panicked (world st)"
  shows "minv sources (CopyMultipleSources_step cd sources destination [] st)"
proof (cases "opc st")
  case OCount
  with assms show ?thesis
    by (auto simp: CopyMultipleSources_step_def minv_def idle_def split: prod.splits option.splits)
next
  case OStat
  with assms show ?thesis
    by (auto simp: CopyMultipleSources_step_def minv_def idle_def sums_def)
next
  case OMkdir
  with assms show ?thesis
    by (auto simp: CopyMultipleSources_step_def minv_def idle_def sums_def
        split: prod.splits option.splits)
next
  case OSpawn
  with assms have s: "sums st" and src: "map src_of (calls st) @ pending st = sources"
    by (simp_all add: minv_def)
  show ?thesis
  proof (cases "pending st")
    case Nil
    with OSpawn assms s src show ?thesis
      by (auto simp: CopyMultipleSources_step_def minv_def sums_def)
  next
    case (Cons a rest)
    obtain source node where a: "a = (source, node)" by (cases a)
    have st': "CopyMultipleSources_step cd sources destination [] st =
                 st\<lparr>owg := owg st + 1, calls := calls st @ [spawn source node destination],
                    pending := rest\<rparr>"
      using OSpawn Cons a assms(2) by (simp add: CopyMultipleSources_step_def)
    have "src_of (spawn source node destination) = (source, node)"
      by (simp add: src_of_def spawn_def)
    with sums_spawn [OF s, where source = source and node = node and destination = destination
        and rest = rest] src Cons a OSpawn
    show ?thesis unfolding st' by (simp add: minv_def)
  qed
next
  case OClosed
  with assms show ?thesis
    by (auto simp: CopyMultipleSources_step_def minv_def sums_def)
next
  case ORun
  with assms show ?thesis by (simp add: CopyMultipleSources_step_def minv_def)
next
  case (ORet n e)
  with assms show ?thesis by (simp add: CopyMultipleSources_step_def minv_def)
qed

lemma minv_below_step:
  assumes "minv sources st" and "\<not> panicked (world st)"
  shows "minv sources (CopyMultipleSources_step cd sources destination (i # t) st)"
proof (cases "i < length (calls st)")
  case False
  with assms show ?thesis by (simp add: CopyMultipleSources_step_def)
next
  case True
  then have ne: "calls st \<noteq> []" by auto
  with assms(1) have s: "sums st"
    by (cases "opc st") (auto simp: minv_def idle_def)
  show ?thesis
  proof (cases "t = [] \<and> returned (pc (frame_of (calls st ! i)))")
    case collect: True
    then have st': "CopyMultipleSources_step cd sources destination (i # t) st = step_collect i st"
      using True assms(2) by (simp add: CopyMultipleSources_step_def)
    note c = sums_step_collect [OF s True]
    show ?thesis
    proof (cases "owg st = 0")
      case True
      from step_collect_exited [OF s True \<open>i < length (calls st)\<close>] assms(1)
      show ?thesis unfolding st' by simp
    next
      case False
      with assms(1) ne have o: "opc st = OSpawn"
        by (cases "opc st") (auto simp: minv_def idle_def)
      with assms(1) c show ?thesis unfolding st' by (simp add: minv_def)
    qed
  next
    case False
    obtain c' w' where sc: "step_call cd t (calls st ! i) (world st) = (c', w')"
      by (cases "step_call cd t (calls st ! i) (world st)")
    with False True assms(2)
    have st': "CopyMultipleSources_step cd sources destination (i # t) st =
                 st\<lparr>calls := (calls st)[i := c'], world := w'\<rparr>"
      by (auto simp: CopyMultipleSources_step_def)
    note c = sums_step_call [OF s True sc]
    have same: "countChan (st\<lparr>calls := (calls st)[i := c'], world := w'\<rparr>) = countChan st"
      "errChan (st\<lparr>calls := (calls st)[i := c'], world := w'\<rparr>) = errChan st"
      "owg (st\<lparr>calls := (calls st)[i := c'], world := w'\<rparr>) = owg st"
      "opc (st\<lparr>calls := (calls st)[i := c'], world := w'\<rparr>) = opc st"
      "pending (st\<lparr>calls := (calls st)[i := c'], world := w'\<rparr>) = pending st"
      by simp_all
    from assms(1) ne c show ?thesis unfolding st'
      by (cases "opc st") (auto simp: minv_def idle_def)
  qed
qed

lemma minv_step:
  assumes "minv sources st"
  shows "minv sources (CopyMultipleSources_step cd sources destination t st)"
proof (cases "panicked (world st)")
  case True
  with assms show ?thesis by (simp add: CopyMultipleSources_step_def)
next
  case False
  with assms minv_main_step minv_below_step show ?thesis by (cases t) auto
qed

lemma minv_run:
  "minv sources st \<Longrightarrow> minv sources (run_CopyMultipleSources cd sources destination ts st)"
  by (induction ts arbitrary: st) (simp_all add: minv_step)

lemma minv_start: "minv sources (start d)"
  by (simp add: minv_def start_def idle_def)

text \<open>
  A run of \<open>CopyMultipleSources\<close> that has returned: when it has returned \<open>(n, e)\<close> and
  the call for at least one source has returned an error, then every source was run
  and has returned, \<open>e\<close> is the error that the call for one of the sources returned, and
  \<open>n\<close> is the sum of the counts that the calls for all sources returned.
\<close>

lemma returned_sums_and_one_error:
  assumes "opc (CopyMultipleSources cd ts sources destination d) = ORet n e"
    and "c \<in> set (calls (CopyMultipleSources cd ts sources destination d))"
    and "result c = Some (k, Some err)"
  shows "map src_of (calls (CopyMultipleSources cd ts sources destination d)) = sources \<and>
         list_all (\<lambda>c. result c \<noteq> None) (calls (CopyMultipleSources cd ts sources destination d)) \<and>
         n = sum_list (map returned_count (calls (CopyMultipleSources cd ts sources destination d))) \<and>
         (\<exists>c' k' e'. c' \<in> set (calls (CopyMultipleSources cd ts sources destination d)) \<and>
            result c' = Some (k', Some e') \<and> e = Some e')"
proof -
  let ?st = "CopyMultipleSources cd ts sources destination d"
  have "minv sources ?st"
    unfolding CopyMultipleSources_def by (rule minv_run [OF minv_start])
  with assms(1,2) have s: "sums ?st" and src: "map src_of (calls ?st) = sources"
    and w: "owg ?st = 0" and n: "n = sum_list (countChan ?st)"
    and e: "e = (case errChan ?st of [] \<Rightarrow> None | x # xs \<Rightarrow> Some x)"
    by (auto simp: minv_def)
  note ex = sums_all_exited [OF s w]
  have all: "list_all (\<lambda>c. result c \<noteq> None) (calls ?st)"
    using ex by (simp add: list_all_iff)
  have "map collected (calls ?st) = map returned_count (calls ?st)"
    using ex by (auto simp: collected_def returned_count_def split: option.splits)
  with s n have sum: "n = sum_list (map returned_count (calls ?st))"
    by (simp add: sums_def)
  from ex [OF assms(2)] assms(3) have "reported c = [err]" by (simp add: reported_def)
  with assms(2) have "err \<in> set (concat (map reported (calls ?st)))"
    by (auto intro!: bexI [of _ c])
  moreover from s have se: "set (errChan ?st) = set (concat (map reported (calls ?st)))"
    by (simp add: sums_def)
  ultimately have "err \<in> set (errChan ?st)" by blast
  then obtain x xs where xs: "errChan ?st = x # xs" by (cases "errChan ?st") auto
  with e have e': "e = Some x" by simp
  from xs have "x \<in> set (errChan ?st)" by simp
  with se have "x \<in> set (concat (map reported (calls ?st)))" by blast
  then obtain c' where c': "c' \<in> set (calls ?st)" "x \<in> set (reported c')" by auto
  have "\<exists>k'. result c' = Some (k', Some x)"
    using c'(2) by (cases "result c'") (auto simp: reported_def split: option.splits if_splits)
  then obtain k' where "result c' = Some (k', Some x)" by blast
  with c' e' src all sum show ?thesis by blast
qed

lemma run_CopyMultipleSources_append:
  "run_CopyMultipleSources cd sources destination (ts @ ts') st =
   run_CopyMultipleSources cd sources destination ts'
     (run_CopyMultipleSources cd sources destination ts st)"
  by (induction ts arbitrary: st) simp_all

lemma run_CopyMultipleSources_panicked:
  "panicked (world st) \<Longrightarrow> run_CopyMultipleSources cd sources destination ts st = st"
  by (induction ts) (simp_all add: CopyMultipleSources_step_def)

text \<open>
  C8. The claim: in every run in which the call for a source returns an error,
  \<open>CopyMultipleSources\<close> returns one of the errors and the sum of the counts. It does
  when it returns, but it need not return: the call for a source that fails on a file
  returns at line 96 without waiting for the goroutines of its subdirectories, so the
  wait of line 227 ends and line 228 closes the progress channel while such a
  goroutine still runs. In the run below the call for the first source has returned
  \<open>(0, err)\<close>, its count and its error are in the channels, the second source is
  copied, the channel is closed, and the goroutine for \<open>A/a\<close> then sends on the closed
  channel (line 122): the program panics before line 233, and under no continuation
  of the schedule does \<open>CopyMultipleSources\<close> return.
\<close>

theorem CopyMultipleSources_panics_after_error:
  "map result (calls (CopyMultipleSources \<lparr>BufferSize = 0\<rparr> orphan_schedule orphan_sources
       [''dst''] root_only)) =
     [Some (0, Some (PathError ''open'' [''A'', ''b''] EACCES)), Some (1, None)] \<and>
   countChan (CopyMultipleSources \<lparr>BufferSize = 0\<rparr> orphan_schedule orphan_sources
       [''dst''] root_only) = [0, 1] \<and>
   errChan (CopyMultipleSources \<lparr>BufferSize = 0\<rparr> orphan_schedule orphan_sources
       [''dst''] root_only) = [PathError ''open'' [''A'', ''b''] EACCES] \<and>
   closed (world (CopyMultipleSources \<lparr>BufferSize = 0\<rparr> orphan_schedule orphan_sources
       [''dst''] root_only)) \<and>
   panicked (world (CopyMultipleSources \<lparr>BufferSize = 0\<rparr> orphan_schedule orphan_sources
       [''dst''] root_only)) \<and>
   (\<forall>ts. opc (CopyMultipleSources \<lparr>BufferSize = 0\<rparr> (orphan_schedule @ ts) orphan_sources
       [''dst''] root_only) = OClosed)"
proof -
  let ?st = "CopyMultipleSources \<lparr>BufferSize = 0\<rparr> orphan_schedule orphan_sources [''dst''] root_only"
  have r: "map result (calls ?st) =
      [Some (0, Some (PathError ''open'' [''A'', ''b''] EACCES)), Some (1, None)]"
    by (simp add: run_defs orphan_sources_def orphan_schedule_def)
  have c: "countChan ?st = [0, 1]"
    by (simp add: run_defs orphan_sources_def orphan_schedule_def)
  have e: "errChan ?st = [PathError ''open'' [''A'', ''b''] EACCES]"
    by (simp add: run_defs orphan_sources_def orphan_schedule_def)
  have w: "closed (world ?st)" "panicked (world ?st)"
    by (simp_all add: run_defs orphan_sources_def orphan_schedule_def)
  have o: "opc ?st = OClosed"
    by (simp add: run_defs orphan_sources_def orphan_schedule_def)
  have "opc (CopyMultipleSources \<lparr>BufferSize = 0\<rparr> (orphan_schedule @ ts) orphan_sources
      [''dst''] root_only) = OClosed" for ts
    using run_CopyMultipleSources_panicked [OF w(2)] o
    by (simp add: CopyMultipleSources_def run_CopyMultipleSources_append)
  with r c e w show ?thesis by blast
qed

section \<open>A step keeps the invariant of a call\<close>

text \<open>
  The invariant depends on the disk below the destination directory only, the
  activations under one directory work on disjoint parts of the disk, and each
  statement of \<open>CopyFilesAndDirectory\<close> keeps the invariant.
\<close>

lemma dstate_cong:
  assumes "dstate b f fr dn"
    and "\<And>r. f' (destinationDirectory fr @ r) = f (destinationDirectory fr @ r)"
  shows "dstate b f' fr dn"
proof -
  have "f' (destinationDirectory fr) = f (destinationDirectory fr)"
    using assms(2) [of "[]"] by simp
  with assms show ?thesis unfolding dstate_def by simp
qed

lemma kid_dst:
  assumes "tally fr kids dn" and "k \<in> set kids"
  shows "\<exists>e \<in> set (dirs dn). args_of k =
           (sourceDirectory fr @ [fst e], snd e, destinationDirectory fr @ [fst e])"
proof -
  from assms(2) have "args_of k \<in> set (map args_of kids)" by simp
  with assms(1) show ?thesis unfolding tally_def by auto
qed

lemma cinv_cong:
  "cinv b f c \<Longrightarrow> (\<And>p. prefix (destinationDirectory (frame_of c)) p \<Longrightarrow> f' p = f p) \<Longrightarrow> cinv b f' c"
proof (induction c)
  case (Call fr kids)
  let ?d = "destinationDirectory fr"
  from Call.prems(1) obtain dn where l: "linv b f fr kids dn" and ks: "\<forall>k \<in> set kids. cinv b f k"
    by auto
  have eq: "\<And>r. f' (?d @ r) = f (?d @ r)" using Call.prems(2) by simp
  from l have "dstate b f fr dn" by (simp add: linv_def)
  then have "dstate b f' fr dn" by (rule dstate_cong) (rule eq)
  with l have l': "linv b f' fr kids dn" by (simp add: linv_def)
  have "cinv b f' k" if k: "k \<in> set kids" for k
  proof (rule Call.IH [OF k])
    show "cinv b f k" using ks k by simp
    from l have "tally fr kids dn" by (simp add: linv_def)
    from kid_dst [OF this k] obtain e where "destinationDirectory (frame_of k) = ?d @ [fst e]"
      unfolding args_of_def by auto
    then show "\<And>p. prefix (destinationDirectory (frame_of k)) p \<Longrightarrow> f' p = f p"
      using Call.prems(2) by (metis append_prefixD frame_of.simps)
  qed
  with l' show ?case by auto
qed

lemmas cinv_defs = linv_def static_def control_def tally_def dstate_def early_def inflight_def

lemma headval_quiet [simp]:
  "headval b d ents PStat dn n = settled b d dn n"
  "headval b d ents PMkdir dn n = settled b d dn n"
  "headval b d ents PReadDir dn n = settled b d dn n"
  "headval b d ents PLoop dn n = settled b d dn n"
  "headval b d ents PCreate dn n = settled b d dn n"
  "headval b d ents (PRet k e) dn n = settled b d dn n"
  by (simp_all add: headval_def split: list.split)

lemma headval_other [simp]:
  "n \<noteq> name \<Longrightarrow> headval b d ((name, x) # rest) p dn n = settled b d dn n"
  by (simp add: headval_def)

lemma headval_current [simp]:
  "headval b d ((n, x) # rest) PTransfer dn n = Some (DFile [])"
  "headval b d ((n, x) # rest) PSend dn n = Some (DFile (bytes_of x))"
  by (simp_all add: headval_def)

lemma headval_PIncr [simp]: "headval b d ents PIncr dn n = headval b d ents PSend dn n"
  by (simp add: headval_def split: list.split)

lemma settled_Nil [simp]: "settled b d [] n = b (d @ [n])"
  by (simp add: settled_def files_def)

lemma settled_base: "n \<notin> fst ` set dn \<Longrightarrow> settled b d dn n = b (d @ [n])"
  by (force simp: settled_def files_def split: option.split dest!: map_of_SomeD)

lemma settled_snoc_dir [simp]: "IsDir x \<Longrightarrow> settled b d (dn @ [(name, x)]) n = settled b d dn n"
  by (simp add: settled_def files_def)

lemma settled_snoc_other [simp]:
  "n \<noteq> name \<Longrightarrow> settled b d (dn @ [(name, x)]) n = settled b d dn n"
  by (simp add: settled_def files_def map_add_def split: option.split)

lemma settled_snoc_file:
  "\<not> IsDir x \<Longrightarrow> name \<notin> fst ` set dn \<Longrightarrow>
   settled b d (dn @ [(name, x)]) name = Some (DFile (bytes_of x))"
  by (force simp: settled_def files_def map_add_def split: option.split dest!: map_of_SomeD)

lemma dirs_simps [simp]:
  "dirs [] = []"
  "dirs (dn @ [(name, x)]) = (if IsDir x then dirs dn @ [(name, x)] else dirs dn)"
  by (simp_all add: dirs_def)

lemma files_simps [simp]:
  "files [] = []"
  "files (dn @ [(name, x)]) = (if IsDir x then files dn else files dn @ [(name, x)])"
  by (simp_all add: files_def)

lemma clean_file: "clean x \<Longrightarrow> \<not> IsDir x \<Longrightarrow> x = SFile None (bytes_of x) None"
  by (cases x) auto

lemma clean_dir: "clean x \<Longrightarrow> IsDir x \<Longrightarrow> x = SDir None (es_of x)"
  by (cases x) auto

lemma not_file_cases: "\<not> is_file x \<longleftrightarrow> x = None \<or> x = Some DDir"
  by (cases x rule: is_file.cases) auto

lemma Stat_anc:
  assumes "anc f d"
  shows "Stat f d = (if f d = None then Some (PathError ''stat'' d ENOENT) else None)"
proof -
  have "\<not> (\<exists>q \<in> set (prefixes d). q \<noteq> d \<and> is_file (f q))"
    using assms by (auto simp: anc_def strict_prefix_def)
  then show ?thesis by (simp only: Stat_def if_False)
qed

lemma MkdirAll_anc:
  assumes "anc f d" and "\<not> is_file (f d)"
  shows "MkdirAll f d = (f(d \<mapsto> DDir), None)"
proof -
  have nf: "\<not> (\<exists>q \<in> set (prefixes d). is_file (f q))"
    using assms by (auto simp: anc_def strict_prefix_def)
  have "(\<lambda>q. if prefix q d \<and> f q = None then Some DDir else f q) = f(d \<mapsto> DDir)"
  proof
    fix q
    show "(if prefix q d \<and> f q = None then Some DDir else f q) = (f(d \<mapsto> DDir)) q"
      using assms by (auto simp: anc_def strict_prefix_def not_file_cases)
  qed
  with nf show ?thesis unfolding MkdirAll_def by simp
qed

lemma own_PStat:
  assumes "linv b f fr kids dn" and "anc f (destinationDirectory fr)" and "pc fr = PStat"
    and "disk s = f"
  shows "\<exists>p'. step_own cd fr s = (fr\<lparr>pc := p'\<rparr>, [], s) \<and> linv b f (fr\<lparr>pc := p'\<rparr>) kids dn"
proof (cases "f (destinationDirectory fr) = None")
  case True
  with assms have "step_own cd fr s = (fr\<lparr>pc := PMkdir\<rparr>, [], s)"
    by (simp add: step_own_def Stat_anc)
  moreover from assms have "linv b f (fr\<lparr>pc := PMkdir\<rparr>) kids dn"
    by (simp add: cinv_defs)
  ultimately show ?thesis by blast
next
  case False
  with assms have "step_own cd fr s = (fr\<lparr>pc := PReadDir\<rparr>, [], s)"
    by (auto simp: step_own_def Stat_anc)
  moreover from assms False have "linv b f (fr\<lparr>pc := PReadDir\<rparr>) kids dn"
    by (simp add: cinv_defs not_file_cases)
  ultimately show ?thesis by blast
qed

lemma own_PMkdir:
  assumes "linv b f fr kids dn" and "anc f (destinationDirectory fr)" and "pc fr = PMkdir"
    and "disk s = f"
  shows "step_own cd fr s = (fr\<lparr>pc := PReadDir\<rparr>, [], s\<lparr>disk := f(destinationDirectory fr \<mapsto> DDir)\<rparr>) \<and>
         linv b (f(destinationDirectory fr \<mapsto> DDir)) (fr\<lparr>pc := PReadDir\<rparr>) kids dn"
proof -
  from assms have nf: "\<not> is_file (f (destinationDirectory fr))"
    by (simp add: linv_def dstate_def early_def)
  from assms MkdirAll_anc [OF assms(2) nf]
  have "step_own cd fr s = (fr\<lparr>pc := PReadDir\<rparr>, [], s\<lparr>disk := f(destinationDirectory fr \<mapsto> DDir)\<rparr>)"
    by (simp add: step_own_def)
  moreover from assms
  have "linv b (f(destinationDirectory fr \<mapsto> DDir)) (fr\<lparr>pc := PReadDir\<rparr>) kids dn"
    by (simp add: cinv_defs)
  ultimately show ?thesis by blast
qed

lemma own_PReadDir:
  assumes "linv b f fr kids dn" and "pc fr = PReadDir"
  shows "step_own cd fr s = (fr\<lparr>pc := PLoop, entries := es_of (sourceNode fr)\<rparr>, [], s) \<and>
         linv b f (fr\<lparr>pc := PLoop, entries := es_of (sourceNode fr)\<rparr>) kids dn"
proof -
  from assms have T: "sourceNode fr = SDir None (es_of (sourceNode fr))"
    by (simp add: linv_def static_def clean_dir)
  have "ReadDir (sourceDirectory fr) (sourceNode fr) = (es_of (sourceNode fr), None)"
    by (subst T) simp
  with assms
  have "step_own cd fr s = (fr\<lparr>pc := PLoop, entries := es_of (sourceNode fr)\<rparr>, [], s)"
    by (simp add: step_own_def)
  moreover from assms
  have "linv b f (fr\<lparr>pc := PLoop, entries := es_of (sourceNode fr)\<rparr>) kids dn"
    by (auto simp: cinv_defs)
  ultimately show ?thesis by blast
qed

lemma static_entries:
  assumes "static b fr" and "e \<in> set (es_of (sourceNode fr))"
  shows "clean (snd e)" and "fits b (destinationDirectory fr @ [fst e]) (snd e)"
    and "distinct (map fst (es_of (sourceNode fr)))"
proof -
  obtain es where T: "sourceNode fr = SDir None es"
    using assms(1) by (cases "sourceNode fr") (auto simp: static_def)
  with assms show "clean (snd e)" "fits b (destinationDirectory fr @ [fst e]) (snd e)"
    "distinct (map fst (es_of (sourceNode fr)))"
    by (auto simp: static_def list_all_iff)
qed

lemma current_entry:
  assumes "static b fr" and "es_of (sourceNode fr) = dn @ (name, entry) # rest"
  shows "clean entry" and "fits b (destinationDirectory fr @ [name]) entry"
    and "name \<notin> fst ` set dn" and "name \<notin> fst ` set rest"
proof -
  have m: "(name, entry) \<in> set (es_of (sourceNode fr))" using assms(2) by simp
  from static_entries [OF assms(1) m]
  show "clean entry" "fits b (destinationDirectory fr @ [name]) entry" by simp_all
  from static_entries(3) [OF assms(1) m] assms(2)
  show "name \<notin> fst ` set dn" "name \<notin> fst ` set rest" by auto
qed

lemma map_of_files_None: "n \<notin> fst ` set dn \<Longrightarrow> map_of (files dn) n = None"
  by (auto simp: files_def map_of_eq_None_iff)

lemma not_in_dirs: "n \<notin> fst ` set dn \<Longrightarrow> n \<notin> fst ` set (dirs dn)"
  by (auto simp: dirs_def)

lemma own_PLoop_file:
  assumes "linv b f fr kids dn" and "pc fr = PLoop" and "entries fr = (name, entry) # rest"
    and "\<not> IsDir entry"
  shows "step_own cd fr s = (fr\<lparr>pc := PCreate\<rparr>, [], s) \<and> linv b f (fr\<lparr>pc := PCreate\<rparr>) kids dn"
proof -
  from assms have st: "static b fr" and es: "es_of (sourceNode fr) = dn @ (name, entry) # rest"
    by (simp_all add: linv_def control_def early_def)
  from clean_file [OF current_entry(1) [OF st es] assms(4)]
  have "Open (sourceDirectory fr @ [name]) entry = None" by (metis Open.simps(2))
  with assms have "step_own cd fr s = (fr\<lparr>pc := PCreate\<rparr>, [], s)"
    by (simp add: step_own_def)
  moreover from assms have "linv b f (fr\<lparr>pc := PCreate\<rparr>) kids dn"
    by (simp add: cinv_defs)
  ultimately show ?thesis by blast
qed

lemma own_PCreate:
  assumes "linv b f fr kids dn" and "pc fr = PCreate" and "disk s = f"
  shows "\<exists>name. name \<notin> fst ` set (dirs dn) \<and>
           step_own cd fr s = (fr\<lparr>pc := PTransfer\<rparr>, [],
              s\<lparr>disk := f(destinationDirectory fr @ [name] \<mapsto> DFile [])\<rparr>) \<and>
           linv b (f(destinationDirectory fr @ [name] \<mapsto> DFile [])) (fr\<lparr>pc := PTransfer\<rparr>) kids dn"
proof -
  let ?d = "destinationDirectory fr"
  from assms obtain name entry rest where en: "entries fr = (name, entry) # rest"
    and nd: "\<not> IsDir entry"
    by (cases "entries fr") (auto simp: linv_def control_def inflight_def)
  from assms en have st: "static b fr" and es: "es_of (sourceNode fr) = dn @ (name, entry) # rest"
    by (simp_all add: linv_def control_def early_def)
  note ce = current_entry [OF st es]
  from ce(3) have nid: "name \<notin> fst ` set (dirs dn)" by (rule not_in_dirs)
  from assms nid have "f (?d @ [name]) = headval b ?d (entries fr) (pc fr) dn name"
    and fd: "f ?d = Some DDir"
    by (simp_all add: linv_def dstate_def)
  with en assms(2) have "f (?d @ [name]) = b (?d @ [name])"
    by (simp add: settled_base [OF ce(3)])
  moreover from ce(1,2) nd have "b (?d @ [name]) \<noteq> Some DDir"
    by (cases entry) auto
  ultimately have "Create f (?d @ [name]) = (f(?d @ [name] \<mapsto> DFile []), None)"
    using fd by (auto simp: Create_def split: option.splits dnode.splits)
  with assms en
  have 1: "step_own cd fr s = (fr\<lparr>pc := PTransfer\<rparr>, [], s\<lparr>disk := f(?d @ [name] \<mapsto> DFile [])\<rparr>)"
    by (simp add: step_own_def)
  from assms en
  have 2: "linv b (f(?d @ [name] \<mapsto> DFile [])) (fr\<lparr>pc := PTransfer\<rparr>) kids dn"
    by (auto simp: cinv_defs)
  from nid 1 2 show ?thesis by blast
qed

lemma inflight_entry:
  assumes "linv b f fr kids dn" and "inflight (pc fr)"
  obtains name entry rest where "entries fr = (name, entry) # rest" and "\<not> IsDir entry"
    and "es_of (sourceNode fr) = dn @ (name, entry) # rest" and "clean entry"
    and "name \<notin> fst ` set dn" and "name \<notin> fst ` set (dirs dn)"
    and "fits b (destinationDirectory fr @ [name]) entry"
proof -
  from assms obtain name entry rest where en: "entries fr = (name, entry) # rest"
    and nd: "\<not> IsDir entry"
    by (cases "entries fr") (auto simp: linv_def control_def)
  from assms en have st: "static b fr" and es: "es_of (sourceNode fr) = dn @ (name, entry) # rest"
    by (auto simp: linv_def control_def early_def inflight_def)
  note ce = current_entry [OF st es]
  from ce(3) have "name \<notin> fst ` set (dirs dn)" by (rule not_in_dirs)
  with en nd es ce that show ?thesis by blast
qed

lemma own_PTransfer:
  assumes "linv b f fr kids dn" and "pc fr = PTransfer" and "disk s = f"
    and alloc: "allocates cd"
  shows "\<exists>name x. name \<notin> fst ` set (dirs dn) \<and>
           step_own cd fr s = (fr\<lparr>pc := PSend\<rparr>, [],
              s\<lparr>disk := f(destinationDirectory fr @ [name] \<mapsto> x)\<rparr>) \<and>
           linv b (f(destinationDirectory fr @ [name] \<mapsto> x)) (fr\<lparr>pc := PSend\<rparr>) kids dn"
proof -
  let ?d = "destinationDirectory fr"
  from assms(2) have "inflight (pc fr)" by (simp add: inflight_def)
  from inflight_entry [OF assms(1) this] obtain name entry rest
    where en: "entries fr = (name, entry) # rest" and nd: "\<not> IsDir entry"
      and cl: "clean entry" and nid: "name \<notin> fst ` set (dirs dn)"
    by metis
  from clean_file [OF cl nd] have rd: "Read (sourceDirectory fr @ [name]) entry = (bytes_of entry, None)"
    by (metis Read.simps(1))
  from assms(1-3) nid en have "f (?d @ [name]) = Some (DFile [])"
    by (simp add: linv_def dstate_def)
  with rd step_own_PTransfer [OF alloc assms(2) en, of s] assms(3)
  have 1: "step_own cd fr s = (fr\<lparr>pc := PSend\<rparr>, [], s\<lparr>disk := f(?d @ [name] \<mapsto> DFile (bytes_of entry))\<rparr>)"
    by (simp add: transferred_def)
  from assms en
  have 2: "linv b (f(?d @ [name] \<mapsto> DFile (bytes_of entry))) (fr\<lparr>pc := PSend\<rparr>) kids dn"
    by (auto simp: cinv_defs)
  from nid 1 2 show ?thesis by blast
qed

lemma own_PSend:
  assumes "linv b f fr kids dn" and "pc fr = PSend" and "\<not> closed s"
  shows "step_own cd fr s = (fr\<lparr>pc := PIncr\<rparr>, [], s\<lparr>bar := bar s + 1\<rparr>) \<and>
         linv b f (fr\<lparr>pc := PIncr\<rparr>) kids dn"
proof -
  from assms(2) have "inflight (pc fr)" by (simp add: inflight_def)
  from inflight_entry [OF assms(1) this] obtain name entry rest
    where en: "entries fr = (name, entry) # rest"
    by metis
  from assms have 1: "step_own cd fr s = (fr\<lparr>pc := PIncr\<rparr>, [], s\<lparr>bar := bar s + 1\<rparr>)"
    by (simp add: step_own_def)
  from assms en have 2: "linv b f (fr\<lparr>pc := PIncr\<rparr>) kids dn"
    by (simp add: cinv_defs)
  from 1 2 show ?thesis by blast
qed

lemma own_PIncr:
  assumes "linv b f fr kids dn" and "pc fr = PIncr"
  shows "\<exists>dn'. dirs dn' = dirs dn \<and>
           step_own cd fr s =
             (fr\<lparr>pc := PLoop, fileCount := fileCount fr + 1, entries := tl (entries fr)\<rparr>, [], s) \<and>
           linv b f (fr\<lparr>pc := PLoop, fileCount := fileCount fr + 1, entries := tl (entries fr)\<rparr>)
             kids dn'"
proof -
  from assms(2) have "inflight (pc fr)" by (simp add: inflight_def)
  from inflight_entry [OF assms(1) this] obtain name entry rest
    where en: "entries fr = (name, entry) # rest" and nd: "\<not> IsDir entry"
      and es: "es_of (sourceNode fr) = dn @ (name, entry) # rest"
      and nn: "name \<notin> fst ` set dn"
    by metis
  let ?dn = "dn @ [(name, entry)]"
  let ?fr = "fr\<lparr>pc := PLoop, fileCount := fileCount fr + 1, entries := tl (entries fr)\<rparr>"
  from assms have 1: "step_own cd fr s = (?fr, [], s)"
    by (simp add: step_own_def)
  have h: "headval b (destinationDirectory fr) ((name, entry) # rest) PSend dn n
           = settled b (destinationDirectory fr) ?dn n" for n
    using nd nn by (cases "n = name") (simp_all add: settled_snoc_file)
  from assms en nd es have 2: "linv b f ?fr kids ?dn"
    by (simp add: cinv_defs h)
  from nd have "dirs ?dn = dirs dn" by simp
  with 1 2 show ?thesis by blast
qed

lemma spawn_simps [simp]:
  "args_of (spawn src node dst) = (src, node, dst)"
  "merged (spawn src node dst) = 0"
  "alive (spawn src node dst) = 1"
  by (simp_all add: args_of_def merged_def alive_def spawn_def)

lemma own_PLoop_dir:
  assumes "linv b f fr kids dn" and "pc fr = PLoop" and "entries fr = (name, entry) # rest"
    and "IsDir entry"
  shows "step_own cd fr s =
           (fr\<lparr>waitGroup := waitGroup fr + 1, entries := rest\<rparr>,
            [spawn (sourceDirectory fr @ [name]) entry (destinationDirectory fr @ [name])], s) \<and>
         linv b f (fr\<lparr>waitGroup := waitGroup fr + 1, entries := rest\<rparr>)
           (kids @ [spawn (sourceDirectory fr @ [name]) entry (destinationDirectory fr @ [name])])
           (dn @ [(name, entry)]) \<and>
         cinv b f (spawn (sourceDirectory fr @ [name]) entry (destinationDirectory fr @ [name]))"
proof -
  let ?d = "destinationDirectory fr"
  from assms have st: "static b fr" and es: "es_of (sourceNode fr) = dn @ (name, entry) # rest"
    by (simp_all add: linv_def control_def early_def)
  note ce = current_entry [OF st es]
  from assms have 1: "step_own cd fr s =
           (fr\<lparr>waitGroup := waitGroup fr + 1, entries := rest\<rparr>,
            [spawn (sourceDirectory fr @ [name]) entry (?d @ [name])], s)"
    by (simp add: step_own_def)
  from assms es have 2: "linv b f (fr\<lparr>waitGroup := waitGroup fr + 1, entries := rest\<rparr>)
           (kids @ [spawn (sourceDirectory fr @ [name]) entry (?d @ [name])])
           (dn @ [(name, entry)])"
    by (simp add: cinv_defs)
  from ce(3) have nid: "name \<notin> fst ` set (dirs dn)" by (rule not_in_dirs)
  with assms have hd: "f (?d @ [name]) = b (?d @ [name])"
    and below: "\<And>m r. f (?d @ name # m # r) = b (?d @ name # m # r)"
    by (simp_all add: linv_def dstate_def settled_base [OF ce(3)])
  from ce(2) assms(4) have "\<not> is_file (b (?d @ [name]))" by (cases entry) simp_all
  with hd below ce(1,2) assms(4)
  have "linv b f (frame_of (spawn (sourceDirectory fr @ [name]) entry (?d @ [name]))) [] []"
    by (simp add: cinv_defs spawn_def)
  then have 3: "cinv b f (spawn (sourceDirectory fr @ [name]) entry (?d @ [name]))"
    by (auto simp: spawn_def)
  from 1 2 3 show ?thesis by blast
qed

lemma leaves_split:
  "list_all (\<lambda>e. clean (snd e)) es \<Longrightarrow>
   sum_list (map (\<lambda>e. leaves (snd e)) es)
     = length (files es) + sum_list (map (\<lambda>e. leaves (snd e)) (dirs es))"
proof (induction es)
  case Nil
  then show ?case by simp
next
  case (Cons e es)
  then show ?case by (cases "snd e") (auto simp: files_def dirs_def)
qed

lemma all_exited:
  assumes "sum_list (map alive kids) = 0" and "k \<in> set kids"
  shows "gpc (frame_of k) = GExit"
proof -
  from assms have "alive k = 0" by auto
  then show ?thesis by (simp add: alive_def split: if_splits)
qed

lemma own_PLoop_wait:
  assumes "linv b f fr kids dn" and "pc fr = PLoop" and "entries fr = []"
  shows "\<exists>fr'. step_own cd fr s = (fr', [], s) \<and> linv b f fr' kids dn"
proof (cases "waitGroup fr = 0")
  case False
  with assms have "step_own cd fr s = (fr, [], s)" by (simp add: step_own_def)
  with assms(1) show ?thesis by blast
next
  case True
  let ?T = "sourceNode fr"
  let ?fr = "fr\<lparr>pc := PRet (fileCount fr) (firstErr fr)\<rparr>"
  from True assms have 1: "step_own cd fr s = (?fr, [], s)" by (simp add: step_own_def)
  from assms have es: "es_of ?T = dn" and cl: "clean ?T" and dir: "IsDir ?T"
    and ta: "tally fr kids dn"
    by (simp_all add: linv_def control_def early_def static_def)
  from clean_dir [OF cl dir] es have T: "?T = SDir None dn" by simp
  with cl have "list_all (\<lambda>e. clean (snd e)) dn" by (metis clean.simps(2))
  from leaves_split [OF this] T
  have l: "leaves ?T = length (files dn) + sum_list (map (\<lambda>e. leaves (snd e)) (dirs dn))"
    by (metis leaves.simps(2))
  from ta True have "sum_list (map alive kids) = 0" by (simp add: tally_def)
  from all_exited [OF this] have "merged k = leaves (fst (snd (args_of k)))" if "k \<in> set kids" for k
    using that by (simp add: merged_def args_of_def)
  then have "map merged kids = map (\<lambda>a. leaves (fst (snd a))) (map args_of kids)" by simp
  also from ta have "\<dots> = map (\<lambda>e. leaves (snd e)) (dirs dn)" by (simp add: tally_def)
  finally have "fileCount fr = leaves ?T" using ta l by (simp add: tally_def)
  with assms True have 2: "linv b f ?fr kids dn" by (simp add: cinv_defs)
  from 1 2 show ?thesis by blast
qed

lemma own_step:
  assumes "linv b f fr kids dn" and "anc f (destinationDirectory fr)" and "disk s = f"
    and "\<not> closed s" and "step_own cd fr s = (fr', new, s')"
    and alloc: "allocates cd"
  shows "\<exists>dn'. linv b (disk s') fr' (kids @ new) dn' \<and> (\<forall>k \<in> set new. cinv b (disk s') k) \<and>
           (\<forall>p. disk s' p \<noteq> f p \<longrightarrow>
              p = destinationDirectory fr \<or>
              (\<exists>n. p = destinationDirectory fr @ [n] \<and> n \<notin> fst ` set (dirs dn))) \<and>
           closed s' = closed s \<and> panicked s' = panicked s"
proof (cases "pc fr")
  case PStat
  from own_PStat [OF assms(1,2) PStat assms(3), of cd] assms(3,5) show ?thesis by (auto split: if_splits)
next
  case PMkdir
  from own_PMkdir [OF assms(1,2) PMkdir assms(3), of cd] assms(3,5) show ?thesis by (auto split: if_splits)
next
  case PReadDir
  from own_PReadDir [OF assms(1) PReadDir, of cd s] assms(3,5) show ?thesis by (auto split: if_splits)
next
  case PLoop
  show ?thesis
  proof (cases "entries fr")
    case Nil
    from own_PLoop_wait [OF assms(1) PLoop Nil, of cd s] assms(3,5) show ?thesis by (auto split: if_splits)
  next
    case (Cons e rest)
    obtain name entry where e: "e = (name, entry)" by (cases e)
    show ?thesis
    proof (cases "IsDir entry")
      case True
      from own_PLoop_dir [OF assms(1) PLoop Cons [unfolded e] True, of cd s] assms(3,5)
      show ?thesis by (auto split: if_splits)
    next
      case False
      from own_PLoop_file [OF assms(1) PLoop Cons [unfolded e] False, of cd s] assms(3,5)
      show ?thesis by (auto split: if_splits)
    qed
  qed
next
  case PCreate
  from own_PCreate [OF assms(1) PCreate assms(3), of cd] assms(3,5) show ?thesis by (auto split: if_splits)
next
  case PTransfer
  from own_PTransfer [OF assms(1) PTransfer assms(3) alloc] assms(3,5) show ?thesis by (auto split: if_splits)
next
  case PSend
  from own_PSend [OF assms(1) PSend assms(4), of cd] assms(3,5) show ?thesis by (auto split: if_splits)
next
  case PIncr
  from own_PIncr [OF assms(1) PIncr, of cd s] assms(3,5) show ?thesis by (auto split: if_splits)
next
  case (PRet n e)
  with assms show ?thesis by (auto simp: step_own_def)
qed

lemma merge_step:
  assumes "linv b f fr kids dn" and "i < length kids" and "cinv b f (kids ! i)"
    and "returned (pc (frame_of (kids ! i)))"
    and "step_merge fr (frame_of (kids ! i)) = (fr', kfr')"
  shows "linv b f fr' (kids[i := Call kfr' (kids_of (kids ! i))]) dn \<and>
         cinv b f (Call kfr' (kids_of (kids ! i)))"
proof -
  obtain kfr kkids where k: "kids ! i = Call kfr kkids" by (cases "kids ! i")
  from assms(3) k obtain kdn where kl: "linv b f kfr kkids kdn"
    and kk: "\<forall>x \<in> set kkids. cinv b f x" by auto
  from assms(4) k obtain n e where "pc kfr = PRet n e" by (cases "pc kfr") auto
  with kl have kp: "pc kfr = PRet (leaves (sourceNode kfr)) None" and ge: "gpc kfr \<noteq> GErr"
    by (auto simp: linv_def control_def)
  have kin: "kids ! i \<in> set kids" using assms(2) by simp
  have ne: "\<not> early (pc fr)" using assms(1,2) by (auto simp: linv_def control_def)
  have ta: "tally fr kids dn" using assms(1) by (simp add: linv_def)
  have live: "pc fr \<noteq> PRet m x" if "gpc kfr \<noteq> GExit" for m x
  proof
    assume "pc fr = PRet m x"
    with assms(1) ta have "sum_list (map alive kids) = 0" by (simp add: linv_def control_def tally_def)
    from all_exited [OF this kin] k that show False by simp
  qed
  let ?upd = "\<lambda>g. kids[i := Call (kfr\<lparr>gpc := g\<rparr>) kkids]"
  have args: "map args_of (?upd g) = map args_of kids" for g
    using assms(2) k by (simp add: map_update_same args_of_def)
  have sl: "sum_list (map h (?upd g)) + h (Call kfr kkids)
              = sum_list (map h kids) + (h (Call (kfr\<lparr>gpc := g\<rparr>) kkids) :: nat)" for h g
    using sum_list_map_update [OF assms(2), of h] k by simp
  have kinv: "cinv b f (Call (kfr\<lparr>gpc := g\<rparr>) kkids)" if "g = GDone \<or> g = GExit" for g
  proof -
    from kl kp that have "linv b f (kfr\<lparr>gpc := g\<rparr>) kkids kdn"
      by (auto simp: cinv_defs)
    with kk show ?thesis by auto
  qed
  show ?thesis
  proof (cases "gpc kfr")
    case GCall
    with assms(5) k kp
    have r: "fr' = fr\<lparr>fileCount := fileCount fr + leaves (sourceNode kfr)\<rparr>" "kfr' = kfr\<lparr>gpc := GDone\<rparr>"
      by (simp_all add: step_merge_def)
    from GCall have m: "merged (Call kfr kkids) = 0" "alive (Call kfr kkids) = 1"
      "merged (Call (kfr\<lparr>gpc := GDone\<rparr>) kkids) = leaves (sourceNode kfr)"
      "alive (Call (kfr\<lparr>gpc := GDone\<rparr>) kkids) = 1"
      by (simp_all add: merged_def alive_def)
    from sl [of merged GDone] sl [of alive GDone] m ta args [of GDone]
    have "tally fr' (?upd GDone) dn" unfolding r by (simp add: tally_def)
    moreover from assms(1) ne live GCall have "control fr' (?upd GDone) dn" "dstate b f fr' dn"
      "static b fr'"
      unfolding r by (auto simp: linv_def control_def dstate_def static_def inflight_def)
    ultimately show ?thesis using kinv [of GDone] k r by (simp add: linv_def)
  next
    case GErr
    with ge show ?thesis by simp
  next
    case GDone
    with assms(5) k kp
    have r: "fr' = fr\<lparr>waitGroup := waitGroup fr - 1\<rparr>" "kfr' = kfr\<lparr>gpc := GExit\<rparr>"
      by (simp_all add: step_merge_def)
    from GDone have m: "merged (Call kfr kkids) = merged (Call (kfr\<lparr>gpc := GExit\<rparr>) kkids)"
      "alive (Call kfr kkids) = 1" "alive (Call (kfr\<lparr>gpc := GExit\<rparr>) kkids) = 0"
      by (simp_all add: merged_def alive_def)
    from sl [of merged GExit] sl [of alive GExit] m ta args [of GExit]
    have "tally fr' (?upd GExit) dn" unfolding r by (simp add: tally_def)
    moreover from assms(1) ne live GDone have "control fr' (?upd GExit) dn" "dstate b f fr' dn"
      "static b fr'"
      unfolding r by (auto simp: linv_def control_def dstate_def static_def inflight_def)
    ultimately show ?thesis using kinv [of GExit] k r by (simp add: linv_def)
  next
    case GExit
    with assms(5) k kp have r: "fr' = fr" "kfr' = kfr" by (simp_all add: step_merge_def)
    from k have "kids[i := Call kfr kkids] = kids" by (metis list_update_id)
    with r assms(1,3) k show ?thesis by simp
  qed
qed

lemma dstate_frame:
  assumes "dstate b f fr dn"
    and "\<And>p. f' p \<noteq> f p \<Longrightarrow> \<exists>m \<in> fst ` set (dirs dn). prefix (destinationDirectory fr @ [m]) p"
  shows "dstate b f' fr dn"
proof -
  let ?d = "destinationDirectory fr"
  have "f' ?d = f ?d" using assms(2) [of ?d] by auto
  moreover have "f' (?d @ [n]) = f (?d @ [n])" if "n \<notin> fst ` set (dirs dn)" for n
    using assms(2) [of "?d @ [n]"] that by auto
  moreover have "f' (?d @ n # m # r) = f (?d @ n # m # r)" if "n \<notin> fst ` set (dirs dn)" for n m r
    using assms(2) [of "?d @ n # m # r"] that by auto
  ultimately show ?thesis using assms(1) unfolding dstate_def by simp
qed

lemma kids_dst:
  assumes "tally fr kids dn" and "i < length kids"
  shows "i < length (dirs dn)"
    and "args_of (kids ! i) = (sourceDirectory fr @ [fst (dirs dn ! i)], snd (dirs dn ! i),
            destinationDirectory fr @ [fst (dirs dn ! i)])"
proof -
  let ?g = "\<lambda>e. (sourceDirectory fr @ [fst e], snd e, destinationDirectory fr @ [fst e])"
  from assms(1) have m: "map args_of kids = map ?g (dirs dn)" by (simp add: tally_def)
  from arg_cong [OF m, of length] have l: "length kids = length (dirs dn)" by simp
  with assms(2) show i: "i < length (dirs dn)" by simp
  from arg_cong [OF m, of "\<lambda>xs. xs ! i"] have "map args_of kids ! i = map ?g (dirs dn) ! i" .
  with assms(2) i show "args_of (kids ! i) = ?g (dirs dn ! i)" by simp
qed

lemma dirs_distinct:
  assumes "static b fr" and "es_of (sourceNode fr) = dn @ rest"
  shows "distinct (map fst (dirs dn))"
proof -
  obtain es where T: "sourceNode fr = SDir None es"
    using assms(1) by (cases "sourceNode fr") (auto simp: static_def)
  with assms have "distinct (map fst (dn @ rest))" by (auto simp: static_def)
  then show ?thesis by (simp add: dirs_def distinct_map_filter)
qed

lemma pres:
  assumes "cinv b (disk s) c" and "anc (disk s) (destinationDirectory (frame_of c))"
    and "\<not> closed s" and "step_call cd t c s = (c', s')"
    and alloc: "allocates cd"
  shows "cinv b (disk s') c' \<and>
         (\<forall>p. \<not> prefix (destinationDirectory (frame_of c)) p \<longrightarrow> disk s' p = disk s p) \<and>
         closed s' = closed s \<and> panicked s' = panicked s"
  using assms(1-4)
proof (induction t arbitrary: c s c' s')
  case Nil
  obtain fr kids where c: "c = Call fr kids" by (cases c)
  let ?d = "destinationDirectory fr"
  from Nil.prems(1) c obtain dn where l: "linv b (disk s) fr kids dn"
    and ks: "\<forall>k \<in> set kids. cinv b (disk s) k" by auto
  obtain fr' new s'' where so: "step_own cd fr s = (fr', new, s'')"
    by (cases "step_own cd fr s")
  with Nil.prems(4) c have c': "c' = Call fr' (kids @ new)" and s': "s' = s''" by simp_all
  from Nil.prems(2) c have a: "anc (disk s) ?d" by simp
  from own_step [OF l a refl Nil.prems(3) so alloc]
  obtain dn' where l': "linv b (disk s') fr' (kids @ new) dn'"
    and nk: "\<forall>k \<in> set new. cinv b (disk s') k"
    and fm: "\<forall>p. disk s' p \<noteq> disk s p \<longrightarrow> p = ?d \<or> (\<exists>n. p = ?d @ [n] \<and> n \<notin> fst ` set (dirs dn))"
    and cl: "closed s' = closed s" "panicked s' = panicked s"
    unfolding s' by blast
  have "cinv b (disk s') k" if k: "k \<in> set kids" for k
  proof (rule cinv_cong)
    show "cinv b (disk s) k" using ks k by blast
    from l have "tally fr kids dn" by (simp add: linv_def)
    from kid_dst [OF this k] obtain e where e: "e \<in> set (dirs dn)"
      and ka: "args_of k = (sourceDirectory fr @ [fst e], snd e, ?d @ [fst e])"
      by blast
    from ka have kd: "destinationDirectory (frame_of k) = ?d @ [fst e]"
      by (simp add: args_of_def)
    show "disk s' p = disk s p" if pp: "prefix (destinationDirectory (frame_of k)) p" for p
    proof (rule ccontr)
      assume "disk s' p \<noteq> disk s p"
      with fm have "p = ?d \<or> (\<exists>n. p = ?d @ [n] \<and> n \<notin> fst ` set (dirs dn))" by blast
      then show False
      proof
        assume "p = ?d"
        with pp kd show False by (simp add: prefix_def)
      next
        assume "\<exists>n. p = ?d @ [n] \<and> n \<notin> fst ` set (dirs dn)"
        then obtain n where n: "p = ?d @ [n]" "n \<notin> fst ` set (dirs dn)" by blast
        with pp kd have "n = fst e" by (simp add: prefix_def)
        with n(2) e show False by simp
      qed
    qed
  qed
  then have "\<forall>k \<in> set (kids @ new). cinv b (disk s') k" using nk by auto
  with l' have 1: "cinv b (disk s') c'" unfolding c' cinv.simps by blast
  have 2: "\<forall>p. \<not> prefix ?d p \<longrightarrow> disk s' p = disk s p"
  proof (intro allI impI, rule ccontr)
    fix p assume np: "\<not> prefix ?d p" and "disk s' p \<noteq> disk s p"
    with fm have "p = ?d \<or> (\<exists>n. p = ?d @ [n] \<and> n \<notin> fst ` set (dirs dn))" by blast
    with np show False by auto
  qed
  from 1 2 cl c show ?case by simp
next
  case (Cons i t)
  obtain fr kids where c: "c = Call fr kids" by (cases c)
  let ?d = "destinationDirectory fr"
  from Cons.prems(1) c obtain dn where l: "linv b (disk s) fr kids dn"
    and ks: "\<forall>k \<in> set kids. cinv b (disk s) k" by auto
  show ?case
  proof (cases "i < length kids")
    case False
    with Cons.prems(4) c have "c' = c" "s' = s" by auto
    with Cons.prems(1) show ?thesis by simp
  next
    case True
    then have kin: "kids ! i \<in> set kids" by simp
    show ?thesis
    proof (cases "t = [] \<and> returned (pc (frame_of (kids ! i)))")
      case merge: True
      obtain fr' kfr' where sm: "step_merge fr (frame_of (kids ! i)) = (fr', kfr')"
        by (cases "step_merge fr (frame_of (kids ! i))")
      with Cons.prems(4) c True merge
      have c': "c' = Call fr' (kids[i := Call kfr' (kids_of (kids ! i))])" and s': "s' = s"
        by simp_all
      from merge_step [OF l True _ _ sm] ks kin merge
      have l': "linv b (disk s) fr' (kids[i := Call kfr' (kids_of (kids ! i))]) dn"
        and k': "cinv b (disk s) (Call kfr' (kids_of (kids ! i)))"
        by simp_all
      have "cinv b (disk s) x" if "x \<in> set (kids[i := Call kfr' (kids_of (kids ! i))])" for x
        using that ks k' by (metis insert_iff set_update_subset_insert subsetD)
      with l' have "cinv b (disk s) c'" unfolding c' by auto
      moreover from step_merge_keeps [OF sm]
      have "destinationDirectory fr' = ?d" by simp
      ultimately show ?thesis using s' c by simp
    next
      case False
      obtain k' s'' where sk: "step_call cd t (kids ! i) s = (k', s'')"
        by (cases "step_call cd t (kids ! i) s")
      with Cons.prems(4) c True False
      have c': "c' = Call fr (kids[i := k'])" and s': "s' = s''" by auto
      from l have ta: "tally fr kids dn" and st: "static b fr" and ds: "dstate b (disk s) fr dn"
        and co: "control fr kids dn"
        by (simp_all add: linv_def)
      from co True have ne: "\<not> early (pc fr)" by (auto simp: control_def)
      with co have es: "es_of (sourceNode fr) = dn @ entries fr" by (simp add: control_def)
      note kd = kids_dst [OF ta True]
      let ?m = "fst (dirs dn ! i)"
      have kdst: "destinationDirectory (frame_of (kids ! i)) = ?d @ [?m]"
        using kd(2) by (simp add: args_of_def)
      have min: "?m \<in> fst ` set (dirs dn)" using kd(1) by simp
      from ne ds have fd: "disk s ?d = Some DDir" by (auto simp: dstate_def early_def)
      have "anc (disk s) (?d @ [?m])"
        unfolding anc_def
      proof (intro allI impI)
        fix q assume "strict_prefix q (?d @ [?m])"
        then have "prefix q ?d" by (metis prefix_snoc strict_prefix_def)
        then show "disk s q = Some DDir"
          using fd Cons.prems(2) c by (auto simp: anc_def strict_prefix_def)
      qed
      with Cons.IH [OF _ _ Cons.prems(3) sk] ks kin kdst
      have k': "cinv b (disk s'') k'"
        and fm: "\<forall>p. \<not> prefix (?d @ [?m]) p \<longrightarrow> disk s'' p = disk s p"
        and cl: "closed s'' = closed s" "panicked s'' = panicked s"
        by simp_all
      note keep = step_call_keeps [OF sk]
      have same: "args_of k' = args_of (kids ! i)" "merged k' = merged (kids ! i)"
        "alive k' = alive (kids ! i)"
        using keep by (simp_all add: args_of_def merged_def alive_def src_of_def)
      with True ta have ta': "tally fr (kids[i := k']) dn"
        by (simp add: tally_def map_update_same)
      from co ne have co': "control fr (kids[i := k']) dn" by (simp add: control_def)
      have ds': "dstate b (disk s'') fr dn"
      proof (rule dstate_frame [OF ds])
        fix p assume "disk s'' p \<noteq> disk s p"
        with fm have "prefix (?d @ [?m]) p" by blast
        with min show "\<exists>m \<in> fst ` set (dirs dn). prefix (?d @ [m]) p" by blast
      qed
      have others: "cinv b (disk s'') (kids ! j)" if j: "j < length kids" "j \<noteq> i" for j
      proof (rule cinv_cong)
        show "cinv b (disk s) (kids ! j)" using ks j by simp
        note kj = kids_dst [OF ta j(1)]
        have jd: "destinationDirectory (frame_of (kids ! j)) = ?d @ [fst (dirs dn ! j)]"
          using kj(2) by (simp add: args_of_def)
        from dirs_distinct [OF st es] kj(1) kd(1) j(2)
        have neq: "fst (dirs dn ! j) \<noteq> ?m"
          by (metis distinct_conv_nth length_map nth_map)
        show "disk s'' p = disk s p" if "prefix (destinationDirectory (frame_of (kids ! j))) p" for p
        proof (rule ccontr)
          assume "disk s'' p \<noteq> disk s p"
          with fm have "prefix (?d @ [?m]) p" by blast
          with that jd neq show False by (auto simp: prefix_def)
        qed
      qed
      have "cinv b (disk s'') x" if "x \<in> set (kids[i := k'])" for x
      proof -
        from that obtain j where j: "j < length kids" "x = (kids[i := k']) ! j"
          by (metis in_set_conv_nth length_list_update)
        show ?thesis
        proof (cases "j = i")
          case True
          with j k' show ?thesis by simp
        next
          case False
          with j others [of j] show ?thesis by simp
        qed
      qed
      with st co' ta' ds' have 1: "cinv b (disk s'') c'" unfolding c' by (auto simp: linv_def)
      have 2: "\<forall>p. \<not> prefix ?d p \<longrightarrow> disk s'' p = disk s p"
        using fm by (metis append_prefixD)
      from 1 2 cl c s' show ?thesis by simp
    qed
  qed
qed

lemma cinv_spawn:
  assumes "clean T" and "IsDir T" and "fits b d T" and "\<not> is_file (f d)"
    and "\<And>r. r \<noteq> [] \<Longrightarrow> f (d @ r) = b (d @ r)"
  shows "cinv b f (spawn sp T d)"
proof -
  have "linv b f (frame_of (spawn sp T d)) [] []"
    using assms by (simp add: cinv_defs spawn_def)
  then show ?thesis by (auto simp: spawn_def)
qed

lemma final_result:
  assumes "cinv b f c" and "result c = Some (n, e)"
  shows "n = leaves (sourceNode (frame_of c)) \<and> e = None"
proof -
  obtain fr kids where c: "c = Call fr kids" by (cases c)
  with assms(2) have "pc fr = PRet n e" by (cases "pc fr") auto
  with assms(1) c show ?thesis by (auto simp: linv_def control_def)
qed

lemma final_disk:
  assumes "cinv b f c" and "returned (pc (frame_of c))"
  shows "f (destinationDirectory (frame_of c) @ rel) =
           (case lookup (sourceNode (frame_of c)) rel of
              Some x \<Rightarrow> Some (dest_of x)
            | None \<Rightarrow> b (destinationDirectory (frame_of c) @ rel))"
  using assms
proof (induction c arbitrary: rel)
  case (Call fr kids)
  let ?d = "destinationDirectory fr" and ?T = "sourceNode fr"
  from Call.prems(1) obtain dn where l: "linv b f fr kids dn"
    and ks: "\<forall>k \<in> set kids. cinv b f k" by auto
  from Call.prems(2) obtain n e where p: "pc fr = PRet n e" by (cases "pc fr") auto
  from l have st: "static b fr" and co: "control fr kids dn" and ta: "tally fr kids dn"
    and ds: "dstate b f fr dn" by (simp_all add: linv_def)
  from co p have en: "entries fr = []" and wg: "waitGroup fr = 0" and es: "es_of ?T = dn"
    by (simp_all add: control_def early_def)
  from st have cl: "clean ?T" and dir: "IsDir ?T" by (simp_all add: static_def)
  from clean_dir [OF cl dir] es have T: "?T = SDir None dn" by simp
  from cl have "clean (SDir None dn)" by (subst (asm) T)
  then have dist: "distinct (map fst dn)" by simp
  from ds p have fd: "f ?d = Some DDir" by (simp add: dstate_def)
  show ?case
  proof (cases rel)
    case Nil
    with fd T show ?thesis by simp
  next
    case (Cons m r)
    show ?thesis
    proof (cases "m \<in> fst ` set (dirs dn)")
      case True
      then obtain e where "e \<in> set (dirs dn)" and "fst e = m" by auto
      then obtain i where i: "i < length (dirs dn)" and mi: "fst (dirs dn ! i) = m"
        by (auto simp: in_set_conv_nth)
      from ta have "map args_of kids =
          map (\<lambda>e. (sourceDirectory fr @ [fst e], snd e, ?d @ [fst e])) (dirs dn)"
        by (simp add: tally_def)
      from arg_cong [OF this, of length] have len: "length kids = length (dirs dn)" by simp
      with i have ik: "i < length kids" by simp
      then have kin: "kids ! i \<in> set kids" by simp
      let ?x = "snd (dirs dn ! i)"
      from kids_dst(2) [OF ta ik] mi
      have ka: "sourceNode (frame_of (kids ! i)) = ?x"
        "destinationDirectory (frame_of (kids ! i)) = ?d @ [m]"
        by (simp_all add: args_of_def)
      from ta wg have "sum_list (map alive kids) = 0" by (simp add: tally_def)
      from all_exited [OF this kin] have ex: "gpc (frame_of (kids ! i)) = GExit" .
      from ks kin have kc: "cinv b f (kids ! i)" by simp
      have kr: "returned (pc (frame_of (kids ! i)))"
      proof (cases "kids ! i")
        case (Call kfr kkids)
        with kc ex show ?thesis by (auto simp: linv_def control_def)
      qed
      from Call.IH [OF kin kc kr, of r] ka
      have "f (?d @ m # r) = (case lookup ?x r of Some x \<Rightarrow> Some (dest_of x)
              | None \<Rightarrow> b (?d @ m # r))" by (simp split: option.split)
      moreover have "dirs dn ! i \<in> set (dirs dn)" using i by simp
      then have "dirs dn ! i \<in> set dn" by (simp add: dirs_def)
      with mi have "(m, ?x) \<in> set dn" by (cases "dirs dn ! i") simp
      with dist have "map_of dn m = Some ?x" by simp
      ultimately show ?thesis using Cons T by (simp split: option.split)
    next
      case False
      with ds have hv: "f (?d @ [m]) = headval b ?d (entries fr) (pc fr) dn m"
        and below: "\<And>m' r'. f (?d @ m # m' # r') = b (?d @ m # m' # r')"
        by (simp_all add: dstate_def)
      from hv p have hv': "f (?d @ [m]) = settled b ?d dn m" by simp
      show ?thesis
      proof (cases "map_of dn m")
        case None
        then have "m \<notin> fst ` set dn" by (simp add: map_of_eq_None_iff)
        from settled_base [OF this] hv' below None Cons T show ?thesis
          by (cases r) (simp_all split: option.split)
      next
        case (Some x)
        then have mem: "(m, x) \<in> set dn" by (rule map_of_SomeD)
        with False have nd: "\<not> IsDir x" by (force simp: dirs_def)
        with mem have "(m, x) \<in> set (files dn)" by (simp add: files_def)
        moreover from dist have "distinct (map fst (files dn))"
          by (simp add: files_def distinct_map_filter)
        ultimately have "map_of (files dn) m = Some x" by simp
        with hv' have h: "f (?d @ [m]) = Some (DFile (bytes_of x))" by (simp add: settled_def)
        from nd have x: "dest_of x = DFile (bytes_of x)" "\<And>a q. lookup x (a # q) = None"
          by (cases x; simp)+
        from h x below Some Cons T show ?thesis by (cases r) (simp_all split: option.split)
      qed
    qed
  qed
qed

section \<open>From the call to its return\<close>

text \<open>
  The invariant of the outermost call holds when it starts and after every step of
  every schedule. When the call has returned, it has returned the number of files of
  the tree and no error, and the disk is the overlay. A call that has returned does
  nothing more.
\<close>

lemma ready_Stat:
  assumes "ready f d"
  shows "Stat f d = (if f d = None then Some (PathError ''stat'' d ENOENT) else None)"
proof -
  have "\<not> (\<exists>q \<in> set (prefixes d). q \<noteq> d \<and> is_file (f q))"
    using assms by (auto simp: ready_def list_all_iff)
  then show ?thesis by (simp only: Stat_def if_False)
qed

lemma ready_MkdirAll:
  assumes "ready f d"
  shows "MkdirAll f d = ((\<lambda>q. if prefix q d \<and> f q = None then Some DDir else f q), None)"
proof -
  have "\<not> (\<exists>q \<in> set (prefixes d). is_file (f q))"
    using assms by (auto simp: ready_def list_all_iff)
  then show ?thesis by (simp only: MkdirAll_def if_False)
qed

lemma ready_anc_MkdirAll:
  assumes "ready f d"
  shows "anc (fst (MkdirAll f d)) d" and "fst (MkdirAll f d) d = Some DDir"
    and "\<And>r. r \<noteq> [] \<Longrightarrow> fst (MkdirAll f d) (d @ r) = f (d @ r)"
proof -
  have nf: "\<not> is_file (f q)" if "prefix q d" for q
    using assms that by (auto simp: ready_def list_all_iff)
  have dd: "(if prefix q d \<and> f q = None then Some DDir else f q) = Some DDir" if "prefix q d" for q
  proof -
    from nf [OF that] have "f q = None \<or> f q = Some DDir" by (simp add: not_file_cases)
    with that show ?thesis by auto
  qed
  show "anc (fst (MkdirAll f d)) d"
    unfolding anc_def
  proof (intro allI impI)
    fix q assume "strict_prefix q d"
    then have "prefix q d" by (simp add: strict_prefix_def)
    from dd [OF this] show "fst (MkdirAll f d) q = Some DDir"
      by (simp add: ready_MkdirAll [OF assms])
  qed
  show "fst (MkdirAll f d) d = Some DDir"
    unfolding ready_MkdirAll [OF assms] using dd [of d] by simp
  show "fst (MkdirAll f d) (d @ r) = f (d @ r)" if "r \<noteq> []" for r
    unfolding ready_MkdirAll [OF assms] using that by (simp add: prefix_def)
qed

lemma ready_exists:
  assumes "ready f d" and "f d \<noteq> None"
  shows "anc f d" and "fst (MkdirAll f d) = f" and "f d = Some DDir"
proof -
  from assms have all: "f q = Some DDir" if "prefix q d" for q
    using that by (auto simp: ready_def list_all_iff)
  then show "anc f d" by (simp add: anc_def strict_prefix_def)
  from all show "f d = Some DDir" by simp
  have "(if prefix q d \<and> f q = None then Some DDir else f q) = f q" for q
    using all [of q] by simp
  then show "fst (MkdirAll f d) = f"
    unfolding ready_MkdirAll [OF assms(1)] by simp
qed

lemma rinv_start:
  assumes "clean T" and "IsDir T" and "fits b d T" and "\<not> closed s" and "\<not> panicked s"
    and "disk s = b"
  shows "rinv b sp T d (spawn sp T d, s)"
proof -
  from assms(2,3) have "\<not> is_file (b d)" by (cases T) simp_all
  from cinv_spawn [where f = b, OF assms(1-3) this, of sp] assms(4-6)
  show ?thesis by (simp add: rinv_def spawn_def args_of_def)
qed

lemma rinv_step:
  assumes "rinv b sp T d (c, s)" and "ready b d" and alloc: "allocates cd"
  shows "rinv b sp T d (step_call cd t c s)"
proof -
  obtain fr kids where c: "c = Call fr kids" by (cases c)
  obtain c' s' where st: "step_call cd t c s = (c', s')" by (cases "step_call cd t c s")
  from assms(1) have ci: "cinv b (disk s) c" and ar: "args_of c = (sp, T, d)"
    and ncl: "\<not> closed s" and np: "\<not> panicked s"
    by (simp_all add: rinv_def)
  from ar c have dd: "destinationDirectory fr = d" by (simp add: args_of_def)
  note keep = step_call_keeps [OF st]
  from keep ar have ar': "args_of c' = (sp, T, d)" by (simp add: args_of_def src_of_def)
  from ci c obtain dn where l: "linv b (disk s) fr kids dn" by auto
  show ?thesis
  proof (cases "anc (disk s) d \<and> (\<forall>p. \<not> prefix d p \<longrightarrow> disk s p = fst (MkdirAll b d) p)")
    case True
    from True c dd have a: "anc (disk s) (destinationDirectory (frame_of c))" by simp
    from pres [OF ci a ncl st alloc] c dd
    have ci': "cinv b (disk s') c'" and fm: "\<forall>p. \<not> prefix d p \<longrightarrow> disk s' p = disk s p"
      and cl: "closed s' = closed s" "panicked s' = panicked s"
      by simp_all
    have "anc (disk s') d"
      unfolding anc_def
    proof (intro allI impI)
      fix q assume q: "strict_prefix q d"
      then have "\<not> prefix d q" by (auto simp: strict_prefix_def prefix_def)
      with fm have "disk s' q = disk s q" by simp
      with True q show "disk s' q = Some DDir" by (simp add: anc_def)
    qed
    moreover from True fm have "\<forall>p. \<not> prefix d p \<longrightarrow> disk s' p = fst (MkdirAll b d) p" by simp
    ultimately show ?thesis using ci' ar' cl ncl np unfolding st rinv_def by simp
  next
    case False
    with assms(1) have early: "pc (frame_of c) = PStat \<or> pc (frame_of c) = PMkdir"
      and db: "disk s = b"
      by (auto simp: rinv_def)
    from l early c have k0: "kids = []" by (auto simp: linv_def control_def early_def)
    show ?thesis
    proof (cases t)
      case (Cons i t')
      with st c k0 have "c' = c" "s' = s" by auto
      with assms(1) st show ?thesis by simp
    next
      case Nil
      show ?thesis
      proof (cases "pc fr = PStat")
        case True
        show ?thesis
        proof (cases "b d = None")
          case None: True
          with True db dd ready_Stat [OF assms(2)]
          have so: "step_own cd fr s = (fr\<lparr>pc := PMkdir\<rparr>, [], s)"
            by (simp add: step_own_def)
          from l True have "linv b (disk s) (fr\<lparr>pc := PMkdir\<rparr>) kids dn"
            by (simp add: cinv_defs)
          with k0 have "cinv b (disk s) (Call (fr\<lparr>pc := PMkdir\<rparr>) [])" by auto
          moreover from so st Nil c k0 have "c' = Call (fr\<lparr>pc := PMkdir\<rparr>) []" "s' = s" by simp_all
          ultimately show ?thesis using ar' db ncl np k0 unfolding st rinv_def by simp
        next
          case False
          with True db dd ready_Stat [OF assms(2)]
          have so: "step_own cd fr s = (fr\<lparr>pc := PReadDir\<rparr>, [], s)"
            by (auto simp: step_own_def)
          note re = ready_exists [OF assms(2) False]
          from re(3) db dd have fd: "disk s (destinationDirectory fr) = Some DDir" by simp
          from l True fd have "linv b (disk s) (fr\<lparr>pc := PReadDir\<rparr>) kids dn"
            by (simp add: cinv_defs)
          with k0 have "cinv b (disk s) (Call (fr\<lparr>pc := PReadDir\<rparr>) [])" by auto
          moreover from so st Nil c k0 have "c' = Call (fr\<lparr>pc := PReadDir\<rparr>) []" "s' = s" by simp_all
          ultimately show ?thesis using ar' db ncl np k0 re unfolding st rinv_def by simp
        qed
      next
        case False
        with early c have pm: "pc fr = PMkdir" by simp
        let ?f = "fst (MkdirAll b d)"
        from pm db dd ready_MkdirAll [OF assms(2)]
        have so: "step_own cd fr s = (fr\<lparr>pc := PReadDir\<rparr>, [], s\<lparr>disk := ?f\<rparr>)"
          by (simp add: step_own_def)
        note ra = ready_anc_MkdirAll [OF assms(2)]
        have below: "?f (destinationDirectory fr @ n # r) = disk s (destinationDirectory fr @ n # r)"
          for n r
          using ra(3) [of "n # r"] db dd by simp
        from ra(2) dd have fd: "?f (destinationDirectory fr) = Some DDir" by simp
        from l pm fd below have "linv b ?f (fr\<lparr>pc := PReadDir\<rparr>) kids dn"
          by (simp add: cinv_defs)
        with k0 have "cinv b ?f (Call (fr\<lparr>pc := PReadDir\<rparr>) [])" by auto
        moreover from so st Nil c k0
        have "c' = Call (fr\<lparr>pc := PReadDir\<rparr>) []" "s' = s\<lparr>disk := ?f\<rparr>" by simp_all
        ultimately show ?thesis using ar' ncl np k0 ra(1) unfolding st rinv_def by simp
      qed
    qed
  qed
qed

lemma rinv_run:
  assumes "rinv b sp T d cs" and "ready b d" and alloc: "allocates cd"
  shows "rinv b sp T d (run_call cd ts cs)"
  using assms(1)
proof (induction ts arbitrary: cs)
  case Nil
  then show ?case by simp
next
  case (Cons t ts)
  obtain c s where cs: "cs = (c, s)" by (cases cs)
  from Cons.prems cs have "\<not> panicked s" by (simp add: rinv_def)
  moreover from rinv_step [OF _ assms(2) alloc] Cons.prems cs
  have "rinv b sp T d (step_call cd t c s)" by simp
  ultimately show ?case using Cons.IH cs by simp
qed

lemma rinv_final:
  assumes "rinv b sp T d (c, s)" and "result c = Some (n, e)"
  shows "n = leaves T \<and> e = None \<and> disk s = overlay b d T"
proof -
  from assms(1) have ci: "cinv b (disk s) c" and ar: "args_of c = (sp, T, d)"
    by (simp_all add: rinv_def)
  from ar have T: "sourceNode (frame_of c) = T" and d: "destinationDirectory (frame_of c) = d"
    by (simp_all add: args_of_def)
  from assms(2) have ret: "returned (pc (frame_of c))"
    by (cases c; cases "pc (frame_of c)") auto
  then have "pc (frame_of c) \<noteq> PStat" "pc (frame_of c) \<noteq> PMkdir" by auto
  with assms(1) have out: "\<forall>p. \<not> prefix d p \<longrightarrow> disk s p = fst (MkdirAll b d) p"
    by (simp add: rinv_def)
  have "disk s p = overlay b d T p" for p
  proof (cases "prefix d p")
    case True
    then obtain rel where p: "p = d @ rel" by (auto simp: prefix_def)
    from final_disk [OF ci ret, of rel] T d p show ?thesis
      by (simp add: overlay_def split: option.split)
  next
    case False
    with out show ?thesis by (simp add: overlay_def)
  qed
  then have "disk s = overlay b d T" by (rule ext)
  with final_result [OF ci assms(2)] T show ?thesis by simp
qed


section \<open>Some schedule lets the call return\<close>

text \<open>
  While the call has not returned, some goroutine can take a step that leaves less
  work: no run that keeps the invariant is stuck.
\<close>

lemma costs_simps [simp]:
  "costs [] = 0"
  "costs ((name, x) # es) = cost x + costs es"
  by (simp_all add: costs_def)

lemma cost_dir: "IsDir x \<Longrightarrow> cost x = 8 + costs (es_of x)"
  by (cases x) (simp_all add: costs_def)

lemma cost_file: "\<not> IsDir x \<Longrightarrow> cost x = 5"
  by (cases x) simp_all

lemma work_spawn: "work (spawn sp x d) = 4 + costs (es_of x)"
  by (simp add: spawn_def own_def ownp_def)

lemma own_progress:
  assumes "step_own cd fr s = (fr', new, s')" and "\<not> closed s" and "\<not> returned (pc fr)"
    and "inflight (pc fr) \<longrightarrow> entries fr \<noteq> []"
    and "\<not> (pc fr = PLoop \<and> entries fr = [] \<and> waitGroup fr \<noteq> 0)"
    and alloc: "allocates cd"
  shows "own fr' + sum_list (map (\<lambda>k. work k + wrap (gpc (frame_of k))) new) < own fr"
proof (cases "pc fr")
  case PStat
  with assms show ?thesis by (auto simp: step_own_def ownp_def own_def ownp_def split: if_splits)
next
  case PMkdir
  with assms show ?thesis
    by (auto simp: step_own_def ownp_def own_def ownp_def split: prod.splits option.splits)
next
  case PReadDir
  show ?thesis
  proof (cases "sourceNode fr")
    case (SFile oe bs re)
    with PReadDir assms show ?thesis by (auto simp: step_own_def ownp_def own_def ownp_def)
  next
    case (SDir le es)
    with PReadDir assms show ?thesis by (cases le) (auto simp: step_own_def ownp_def own_def ownp_def)
  qed
next
  case PLoop
  show ?thesis
  proof (cases "entries fr")
    case Nil
    with PLoop assms show ?thesis by (auto simp: step_own_def ownp_def own_def ownp_def)
  next
    case (Cons e rest)
    obtain name x where e: "e = (name, x)" by (cases e)
    show ?thesis
    proof (cases "IsDir x")
      case True
      with PLoop Cons e assms(1)
      have "fr' = fr\<lparr>waitGroup := waitGroup fr + 1, entries := rest\<rparr>"
        "new = [spawn (sourceDirectory fr @ [name]) x (destinationDirectory fr @ [name])]"
        by (simp_all add: step_own_def ownp_def)
      with PLoop Cons e cost_dir [OF True] show ?thesis
        by (simp add: own_def ownp_def work_spawn spawn_def)
    next
      case False
      with PLoop Cons e assms(1) cost_file [OF False] show ?thesis
        by (auto simp: step_own_def ownp_def own_def ownp_def split: option.splits)
    qed
  qed
next
  case PCreate
  with assms obtain e rest where "entries fr = e # rest"
    by (cases "entries fr") (auto simp: inflight_def)
  with PCreate assms(1) show ?thesis
    by (cases e) (auto simp: step_own_def ownp_def own_def ownp_def split: prod.splits option.splits)
next
  case PTransfer
  with assms obtain name entry rest where "entries fr = (name, entry) # rest"
    by (cases "entries fr") (auto simp: inflight_def)
  with PTransfer assms(1) step_own_PTransfer [OF alloc PTransfer this, of s] show ?thesis
    by (auto simp: ownp_def own_def split: prod.splits option.splits)
next
  case PSend
  with assms show ?thesis by (auto simp: step_own_def ownp_def own_def ownp_def)
next
  case PIncr
  with assms show ?thesis by (auto simp: step_own_def ownp_def own_def ownp_def)
next
  case (PRet n e)
  with assms show ?thesis by simp
qed

lemma sum_list_update_less:
  assumes "i < length xs" and "h y < (h (xs ! i) :: nat)"
  shows "sum_list (map h (xs[i := y])) < sum_list (map h xs)"
  using sum_list_map_update [OF assms(1), of h y] assms(2) by linarith

lemma own_merge:
  "step_merge par kid = (par', kid') \<Longrightarrow> own par' = own par \<and> own kid' = own kid"
  by (cases "pc kid"; cases "gpc kid") (auto simp: step_merge_def own_def)

lemma merge_progress:
  assumes "step_merge par kid = (par', kid')" and "returned (pc kid)" and "gpc kid \<noteq> GExit"
  shows "wrap (gpc kid') < wrap (gpc kid)"
  using assms by (cases "pc kid"; cases "gpc kid") (auto simp: step_merge_def)

lemma exists_alive:
  assumes "sum_list (map alive kids) \<noteq> 0"
  shows "\<exists>i < length kids. gpc (frame_of (kids ! i)) \<noteq> GExit"
proof -
  from assms obtain k where "k \<in> set kids" and "alive k \<noteq> 0"
    by (induction kids) (auto split: if_splits)
  then show ?thesis by (auto simp: in_set_conv_nth alive_def split: if_splits)
qed

lemma progress:
  assumes "cinv b f c" and "\<not> closed s" and "\<not> returned (pc (frame_of c))"
    and alloc: "allocates cd"
  shows "\<exists>t. work (fst (step_call cd t c s)) < work c"
  using assms(1-3)
proof (induction c)
  case (Call fr kids)
  let ?h = "\<lambda>k. work k + wrap (gpc (frame_of k))"
  from Call.prems(1) obtain dn where l: "linv b f fr kids dn"
    and ks: "\<forall>k \<in> set kids. cinv b f k" by auto
  from l have co: "control fr kids dn" and ta: "tally fr kids dn" by (simp_all add: linv_def)
  from Call.prems(3) have nr: "\<not> returned (pc fr)" by simp
  show ?case
  proof (cases "pc fr = PLoop \<and> entries fr = [] \<and> waitGroup fr \<noteq> 0")
    case False
    obtain fr' new s' where so: "step_own cd fr s = (fr', new, s')"
      by (cases "step_own cd fr s")
    from co have "inflight (pc fr) \<longrightarrow> entries fr \<noteq> []" by (simp add: control_def)
    from own_progress [OF so Call.prems(2) nr this False alloc]
    have "work (fst (step_call cd [] (Call fr kids) s)) < work (Call fr kids)"
      using so by simp
    then show ?thesis by blast
  next
    case True
    with ta have "sum_list (map alive kids) \<noteq> 0" by (simp add: tally_def)
    from exists_alive [OF this] obtain i where i: "i < length kids"
      and live: "gpc (frame_of (kids ! i)) \<noteq> GExit" by blast
    then have kin: "kids ! i \<in> set kids" by simp
    show ?thesis
    proof (cases "returned (pc (frame_of (kids ! i)))")
      case ret: True
      obtain fr' kfr' where sm: "step_merge fr (frame_of (kids ! i)) = (fr', kfr')"
        by (cases "step_merge fr (frame_of (kids ! i))")
      let ?k' = "Call kfr' (kids_of (kids ! i))"
      from own_merge [OF sm] have o: "own fr' = own fr" "own kfr' = own (frame_of (kids ! i))"
        by simp_all
      from o(2) have "work ?k' = work (kids ! i)" by (cases "kids ! i") simp
      with merge_progress [OF sm ret live] have "?h ?k' < ?h (kids ! i)" by simp
      from sum_list_update_less [OF i, of ?h, OF this] o(1) sm i ret
      have "work (fst (step_call cd [i] (Call fr kids) s)) < work (Call fr kids)" by simp
      then show ?thesis by blast
    next
      case False
      from ks kin have "cinv b f (kids ! i)" by blast
      from Call.IH [OF kin this Call.prems(2) False]
      obtain t where t: "work (fst (step_call cd t (kids ! i) s)) < work (kids ! i)" by blast
      obtain k' s' where sk: "step_call cd t (kids ! i) s = (k', s')"
        by (cases "step_call cd t (kids ! i) s")
      from step_call_keeps [OF sk] have "gpc (frame_of k') = gpc (frame_of (kids ! i))" by simp
      with t sk have "?h k' < ?h (kids ! i)" by simp
      from sum_list_update_less [OF i, of ?h, OF this] sk i False
      have "work (fst (step_call cd (i # t) (Call fr kids) s)) < work (Call fr kids)" by simp
      then show ?thesis by blast
    qed
  qed
qed

lemma completes:
  assumes "rinv b sp T d (c, s)" and "ready b d" and alloc: "allocates cd"
  shows "\<exists>ts. returned (pc (frame_of (fst (run_call cd ts (c, s)))))"
  using assms(1)
proof (induction "work c" arbitrary: c s rule: less_induct)
  case less
  show ?case
  proof (cases "returned (pc (frame_of c))")
    case True
    then have "returned (pc (frame_of (fst (run_call cd [] (c, s)))))" by simp
    then show ?thesis by blast
  next
    case False
    from less.prems have ci: "cinv b (disk s) c" and ncl: "\<not> closed s" and np: "\<not> panicked s"
      by (simp_all add: rinv_def)
    from progress [OF ci ncl False alloc] obtain t
      where t: "work (fst (step_call cd t c s)) < work c" by blast
    obtain c' s' where st: "step_call cd t c s = (c', s')" by (cases "step_call cd t c s")
    from rinv_step [OF less.prems assms(2) alloc, of t] st have "rinv b sp T d (c', s')" by simp
    from less.hyps [OF _ this] t st obtain ts
      where "returned (pc (frame_of (fst (run_call cd ts (c', s')))))" by auto
    with st np have "returned (pc (frame_of (fst (run_call cd (t # ts) (c, s)))))" by simp
    then show ?thesis by blast
  qed
qed

section \<open>The disk after the copy\<close>

lemma overlay_below:
  "overlay b d T (d @ r) =
     (case lookup T r of Some x \<Rightarrow> Some (dest_of x) | None \<Rightarrow> b (d @ r))"
  by (simp add: overlay_def)

lemma fits_image:
  "clean x \<Longrightarrow>
   (\<And>r. g (p @ r) = (case lookup x r of Some y \<Rightarrow> Some (dest_of y) | None \<Rightarrow> b (p @ r))) \<Longrightarrow>
   fits g p x"
proof (induction g p x rule: fits.induct)
  case (1 f p oe bs re)
  from "1.prems"(2) [of "[]"] show ?case by simp
next
  case (2 f p le es)
  from "2.prems"(2) [of "[]"] have top: "\<not> is_file (f p)" by simp
  have "fits f (p @ [fst e]) (snd e)" if e: "e \<in> set es" for e
  proof (rule "2.IH" [OF e])
    from "2.prems"(1) e show "clean (snd e)" by (simp add: list_all_iff)
    from "2.prems"(1) e have "map_of es (fst e) = Some (snd e)" by simp
    with "2.prems"(2) [of "fst e # r" for r]
    show "f ((p @ [fst e]) @ r) =
            (case lookup (snd e) r of Some y \<Rightarrow> Some (dest_of y) | None \<Rightarrow> b ((p @ [fst e]) @ r))"
      for r by (simp split: option.split)
  qed
  with top show ?case by (simp add: list_all_iff)
qed

lemma fits_overlay: "clean T \<Longrightarrow> fits (overlay b d T) d T"
  by (rule fits_image [where b = b]) (simp_all add: overlay_below)

lemma overlay_prefix:
  assumes "ready b d" and "IsDir T" and "prefix q d"
  shows "overlay b d T q = Some DDir"
proof (cases "q = d")
  case True
  with assms(2) overlay_below [of b d T "[]"] show ?thesis by (cases T) simp_all
next
  case False
  with assms(3) have sp: "strict_prefix q d" by (simp add: strict_prefix_def)
  then have "\<not> prefix d q" by (auto simp: strict_prefix_def prefix_def)
  moreover from ready_anc_MkdirAll(1) [OF assms(1)] sp have "fst (MkdirAll b d) q = Some DDir"
    by (simp add: anc_def)
  ultimately show ?thesis by (simp add: overlay_def)
qed

lemma ready_overlay:
  assumes "ready b d" and "IsDir T"
  shows "ready (overlay b d T) d"
  using overlay_prefix [OF assms] by (simp add: ready_def list_all_iff)

lemma overlay_idem:
  assumes "ready b d" and "IsDir T"
  shows "overlay (overlay b d T) d T = overlay b d T"
proof
  fix p
  show "overlay (overlay b d T) d T p = overlay b d T p"
  proof (cases "prefix d p")
    case True
    then obtain r where "p = d @ r" by (auto simp: prefix_def)
    then show ?thesis by (simp add: overlay_below split: option.split)
  next
    case False
    from overlay_prefix [OF assms, of d] have "overlay b d T d \<noteq> None" by simp
    from ready_exists(2) [OF ready_overlay [OF assms] this] False
    show ?thesis by (simp add: overlay_def [of "overlay b d T"])
  qed
qed


lemma CopyFilesAndDirectory_overlay:
  assumes "clean T" and "IsDir T" and "fits b d T" and "ready b d"
    and "disk s0 = b" and "\<not> closed s0" and "\<not> panicked s0"
    and alloc: "allocates cd"
  shows "\<not> panicked (snd (CopyFilesAndDirectory cd ts sp T d s0))"
    and "result (fst (CopyFilesAndDirectory cd ts sp T d s0)) = Some (n, e) \<Longrightarrow>
           n = leaves T \<and> e = None \<and> disk (snd (CopyFilesAndDirectory cd ts sp T d s0)) = overlay b d T"
    and "\<exists>ts'. result (fst (CopyFilesAndDirectory cd ts' sp T d s0)) \<noteq> None"
proof -
  note start = rinv_start [OF assms(1-3,6,7,5), of sp]
  let ?r = "CopyFilesAndDirectory cd ts sp T d s0"
  from rinv_run [OF start assms(4) alloc, of ts]
  have r: "rinv b sp T d (fst ?r, snd ?r)" by (simp add: CopyFilesAndDirectory_def)
  then show "\<not> panicked (snd ?r)" by (simp add: rinv_def case_prod_beta)
  from rinv_final [OF r]
  show "result (fst ?r) = Some (n, e) \<Longrightarrow> n = leaves T \<and> e = None \<and> disk (snd ?r) = overlay b d T" .
  from completes [OF start assms(4) alloc] obtain ts'
    where "returned (pc (frame_of (fst (run_call cd ts' (spawn sp T d, s0)))))" by blast
  then have "result (fst (CopyFilesAndDirectory cd ts' sp T d s0)) \<noteq> None"
    unfolding CopyFilesAndDirectory_def
    by (cases "fst (run_call cd ts' (spawn sp T d, s0))";
        cases "pc (frame_of (fst (run_call cd ts' (spawn sp T d, s0))))") auto
  then show "\<exists>ts'. result (fst (CopyFilesAndDirectory cd ts' sp T d s0)) \<noteq> None" by blast
qed

section \<open>Copy on a tree without failures\<close>

lemma vacant_fits_aux:
  "(\<And>r. r \<noteq> [] \<Longrightarrow> b (p @ r) = None) \<Longrightarrow> b p = None \<or> (IsDir x \<and> b p = Some DDir) \<Longrightarrow>
   fits b p x"
proof (induction b p x rule: fits.induct)
  case (1 f p oe bs re)
  then show ?case by auto
next
  case (2 f p le es)
  have "fits f (p @ [fst e]) (snd e)" if e: "e \<in> set es" for e
  proof (rule "2.IH" [OF e])
    show "f ((p @ [fst e]) @ r) = None" if "r \<noteq> []" for r
      using "2.prems"(1) [of "fst e # r"] by simp
    show "f (p @ [fst e]) = None \<or> IsDir (snd e) \<and> f (p @ [fst e]) = Some DDir"
      using "2.prems"(1) [of "[fst e]"] by simp
  qed
  with "2.prems"(2) show ?case by (auto simp: list_all_iff)
qed

lemma vacant_fits:
  assumes "vacant b d" and "ready b d" and "IsDir T"
  shows "fits b d T"
proof (rule vacant_fits_aux)
  show "b (d @ r) = None" if "r \<noteq> []" for r using assms(1) that by (simp add: vacant_def)
  from assms(2) have "\<not> is_file (b d)" by (simp add: ready_def list_all_iff)
  with assms(3) show "b d = None \<or> IsDir T \<and> b d = Some DDir" by (simp add: not_file_cases)
qed











text \<open>
  A second copy of a tree without failures: when the first call has returned and the
  second call, started in the world the first one left, has returned, the disk after
  the second call is the disk after the first.
\<close>

lemma second_copy_of_clean_tree:
  assumes "clean T" and "IsDir T" and "fits b d T" and "ready b d"
    and "disk s0 = b" and "\<not> closed s0" and "\<not> panicked s0"
    and "CopyFilesAndDirectory cd ts1 sp T d s0 = (c1, s1)" and "result c1 \<noteq> None"
    and "CopyFilesAndDirectory cd ts2 sp T d s1 = (c2, s2)" and "result c2 \<noteq> None"
    and alloc: "allocates cd"
  shows "disk s2 = disk s1 \<and> result c2 = result c1"
proof -
  let ?b = "overlay b d T"
  from rinv_run [OF rinv_start [OF assms(1-3,6,7,5), of sp] assms(4) alloc, of ts1] assms(8)
  have r1: "rinv b sp T d (c1, s1)" by (simp add: CopyFilesAndDirectory_def)
  from assms(9) obtain n1 e1 where res1: "result c1 = Some (n1, e1)" by auto
  from rinv_final [OF r1 res1] have f1: "n1 = leaves T" "e1 = None" "disk s1 = ?b" by simp_all
  from r1 have o1: "\<not> closed s1" "\<not> panicked s1" by (simp_all add: rinv_def)
  note fit = fits_overlay [OF assms(1), of b d]
  note rdy = ready_overlay [OF assms(4,2)]
  from rinv_run [OF rinv_start [OF assms(1,2) fit o1 f1(3), of sp] rdy alloc, of ts2] assms(10)
  have r2: "rinv ?b sp T d (c2, s2)" by (simp add: CopyFilesAndDirectory_def)
  from assms(11) obtain n2 e2 where res2: "result c2 = Some (n2, e2)" by auto
  from rinv_final [OF r2 res2] have f2: "n2 = leaves T" "e2 = None" "disk s2 = overlay ?b d T"
    by simp_all
  from f2(3) f1(3) have same: "disk s2 = disk s1" by (simp add: overlay_idem [OF assms(4,2)])
  with res1 res2 f1 f2 show ?thesis by simp
qed

end
